theory Spec2Isabelle
  imports Complex_Main "HOL-Library.Sublist" "HOL-Library.AList" "HOL-Library.Multiset"
    "HOL-Library.Product_Lexorder"
begin

section \<open>Strings and the string operations of the source\<close>

text \<open>
  A document is a Python \<^verbatim>\<open>str\<close>. It is modelled as a \<^typ>\<open>string\<close> in which every
  \<^typ>\<open>char\<close> stands for one character of the \<^verbatim>\<open>str\<close> (code points below 256), so
  that \<^const>\<open>length\<close> and list positions are the positions Python counts.
\<close>

definition BSL :: char where
  "BSL = CHR 0x5C"

definition NL :: char where
  "NL = CHR 0x0A"

text \<open>
  \<^verbatim>\<open>str.isspace\<close> on one character, which is also what \<^verbatim>\<open>\s\<close> matches in a
  \<^verbatim>\<open>str\<close> pattern: tab to carriage return, the four separators 0x1C..0x1F, the
  space, NEL (0x85) and the no-break space (0xA0).
\<close>

definition is_space :: "char \<Rightarrow> bool" where
  "is_space c = (let n = (of_char c :: nat) in
     (9 \<le> n \<and> n \<le> 13) \<or> (28 \<le> n \<and> n \<le> 32) \<or> n = 133 \<or> n = 160)"

text \<open>\<^verbatim>\<open>s.strip()\<close>\<close>

definition strip :: "string \<Rightarrow> string" where
  "strip s = rev (dropWhile is_space (rev (dropWhile is_space s)))"

text \<open>\<^verbatim>\<open>s.split(c)\<close> for a one-character separator: never an empty list.\<close>

fun split_on :: "char \<Rightarrow> string \<Rightarrow> string list" where
  "split_on c [] = [[]]"
| "split_on c (x # xs) =
     (if x = c then [] # split_on c xs
      else (case split_on c xs of
              [] \<Rightarrow> [[x]]
            | p # ps \<Rightarrow> (x # p) # ps))"

text \<open>\<^verbatim>\<open>sep.join(xs)\<close>\<close>

fun join :: "string \<Rightarrow> string list \<Rightarrow> string" where
  "join sep [] = []"
| "join sep [x] = x"
| "join sep (x # y # ys) = x @ sep @ join sep (y # ys)"

text \<open>
  \<^verbatim>\<open>re.search\<close> of a pattern that is a literal string: the position of the leftmost
  occurrence.
\<close>

fun search_literal :: "string \<Rightarrow> string \<Rightarrow> nat option" where
  "search_literal pat [] = (if pat = [] then Some 0 else None)"
| "search_literal pat (c # cs) =
     (if prefix pat (c # cs) then Some 0 else map_option Suc (search_literal pat cs))"

text \<open>\<^verbatim>\<open>s[i:j]\<close> for non-negative \<open>i\<close>, \<open>j\<close>: empty when \<open>j \<le> i\<close>.\<close>

definition slice :: "string \<Rightarrow> nat \<Rightarrow> nat \<Rightarrow> string" where
  "slice s i j = take (j - i) (drop i s)"

text \<open>
  \<^verbatim>\<open>s.replace(old, new)\<close> for a non-empty \<open>old\<close>: every occurrence, left to right,
  without overlap.
\<close>

fun str_replace :: "string \<Rightarrow> string \<Rightarrow> string \<Rightarrow> string" where
  "str_replace old new [] = []"
| "str_replace old new (c # cs) =
     (if old \<noteq> [] \<and> prefix old (c # cs)
      then new @ str_replace old new (drop (length old) (c # cs))
      else c # str_replace old new cs)"


section \<open>Citation tracker\<close>

text \<open>
  \<^verbatim>\<open>CitationTracker\<close>: the ordered dictionary \<open>citations\<close> is an association list in
  insertion order. A position is a Python number, an \<^verbatim>\<open>int\<close> or the \<^verbatim>\<open>float\<close>
  \<^verbatim>\<open>position + i * 0.001\<close>; it is modelled by the exact rational, with \<open>1/1000\<close> for
  the constant \<^verbatim>\<open>0.001\<close>.
\<close>

record CitationTracker =
  citations :: "(string \<times> rat) list"
  citation_positions :: "(rat \<times> string) list"

definition new_tracker :: CitationTracker where
  "new_tracker = \<lparr>citations = [], citation_positions = []\<rparr>"

definition add_citation :: "CitationTracker \<Rightarrow> rat \<Rightarrow> string \<Rightarrow> CitationTracker" where
  "add_citation tr position citation_key =
     (let citation_key = strip citation_key;
          tr = tr\<lparr>citation_positions := citation_positions tr @ [(position, citation_key)]\<rparr>
      in if citation_key \<notin> fst ` set (citations tr)
         then tr\<lparr>citations := citations tr @ [(citation_key, position)]\<rparr>
         else tr)"

text \<open>\<^verbatim>\<open>sorted\<close> is stable, as \<^const>\<open>sort_key\<close> is.\<close>

definition get_ordered_citations :: "CitationTracker \<Rightarrow> string list" where
  "get_ordered_citations tr = map fst (sort_key snd (citations tr))"


section \<open>Citation scanner\<close>

text \<open>
  The pattern \<^verbatim>\<open>\\cite(?:\[[^\]]*\])?\{([^}]+)\}\<close>, matched at the head of a string.
  A matcher returns the number of characters it consumed.

  \<^verbatim>\<open>\[[^\]]*\]\<close>: the class excludes the closing bracket, so the greedy star stops at
  the first \<^verbatim>\<open>]\<close> or at the end of the text, and giving characters back cannot help.
\<close>

definition match_bracket :: "string \<Rightarrow> nat option" where
  "match_bracket r =
     (case r of
        [] \<Rightarrow> None
      | c # t \<Rightarrow>
          if c = CHR ''[''
          then (let m = takeWhile (\<lambda>x. x \<noteq> CHR '']'') t
                in if prefix '']'' (drop (length m) t) then Some (length m + 2) else None)
          else None)"

text \<open>
  \<^verbatim>\<open>\{([^}]+)\}\<close>: group 1 is the longest run without a closing brace; it must be
  non-empty and followed by \<^verbatim>\<open>}\<close>. The result is group 1 and the length consumed.
\<close>

definition match_braced :: "string \<Rightarrow> (string \<times> nat) option" where
  "match_braced r =
     (case r of
        [] \<Rightarrow> None
      | c # t \<Rightarrow>
          if c = CHR ''{''
          then (let g = takeWhile (\<lambda>x. x \<noteq> CHR ''}'') t
                in if g \<noteq> [] \<and> prefix ''}'' (drop (length g) t)
                   then Some (g, length g + 2) else None)
          else None)"

definition CITE :: string where
  "CITE = BSL # ''cite''"

text \<open>
  The optional group is greedy: the match with the bracketed modifier is tried first, the
  match without it second.
\<close>

definition match_cite :: "string \<Rightarrow> (string \<times> nat) option" where
  "match_cite s =
     (if prefix CITE s
      then (let r = drop 5 s;
                with_modifier =
                  (case match_bracket r of
                     None \<Rightarrow> None
                   | Some n \<Rightarrow> map_option (\<lambda>(g, k). (g, 5 + n + k)) (match_braced (drop n r)))
            in case with_modifier of
                 Some m \<Rightarrow> Some m
               | None \<Rightarrow> map_option (\<lambda>(g, k). (g, 5 + k)) (match_braced r))
      else None)"

lemma match_braced_pos: "match_braced r = Some (g, k) \<Longrightarrow> 0 < k"
  by (auto simp: match_braced_def Let_def split: list.splits if_splits)

lemma match_cite_pos: "match_cite s = Some (g, n) \<Longrightarrow> 0 < n"
  by (auto simp: match_cite_def Let_def split: if_splits option.splits)

text \<open>
  \<^verbatim>\<open>re.finditer(cite_pattern, tex_content)\<close>: the matches from left to right, each
  search resuming where the previous match ended. The result lists \<^verbatim>\<open>match.start()\<close>
  and \<^verbatim>\<open>match.group(1)\<close>; \<open>pos\<close> is the position of \<open>s\<close> in the document.
\<close>

function cite_finditer :: "nat \<Rightarrow> string \<Rightarrow> (nat \<times> string) list" where
  "cite_finditer pos s =
     (if s = [] then []
      else (case match_cite s of
              Some (g, n) \<Rightarrow> (pos, g) # cite_finditer (pos + n) (drop n s)
            | None \<Rightarrow> cite_finditer (Suc pos) (tl s)))"
  by pat_completeness auto
termination
  by (relation "measure (\<lambda>(pos, s). length s)") (auto dest: match_cite_pos)

text \<open>
  The inner loop \<^verbatim>\<open>for i, cite_key in enumerate(cite_keys)\<close>; the keys are stripped
  when the list is built and again by \<^const>\<open>add_citation\<close>.
\<close>

fun add_group :: "CitationTracker \<Rightarrow> nat \<Rightarrow> nat \<Rightarrow> string list \<Rightarrow> CitationTracker" where
  "add_group tr position i [] = tr"
| "add_group tr position i (cite_key # cite_keys) =
     add_group (add_citation tr (of_nat position + of_nat i * (1 / 1000)) cite_key)
       position (Suc i) cite_keys"

definition add_match :: "CitationTracker \<Rightarrow> nat \<times> string \<Rightarrow> CitationTracker" where
  "add_match tr m =
     (case m of (position, cite_keys_str) \<Rightarrow>
        if CHR '','' \<in> set cite_keys_str
        then add_group tr position 0 (map strip (split_on (CHR '','') cite_keys_str))
        else add_citation tr (of_nat position) (strip cite_keys_str))"

definition find_all_citations :: "string \<Rightarrow> CitationTracker" where
  "find_all_citations tex_content = foldl add_match new_tracker (cite_finditer 0 tex_content)"


section \<open>Bibliography parser\<close>

definition BEGIN_BIB :: string where
  "BEGIN_BIB = BSL # ''begin{thebibliography}''"

definition END_BIB :: string where
  "END_BIB = BSL # ''end{thebibliography}''"

definition BIBITEM :: string where
  "BIBITEM = BSL # ''bibitem{''"

text \<open>
  The pattern
  \<^verbatim>\<open>\\bibitem\{([^}]+)\}(.*?)(?=\\bibitem\{|\\end\{thebibliography\})\<close> with
  \<^verbatim>\<open>re.DOTALL\<close>. The lookahead holds where the text goes on with the entry marker or
  with the end marker; the lazy group 2 ends at the first such place.
\<close>

definition entry_ahead :: "string \<Rightarrow> bool" where
  "entry_ahead s = (prefix BIBITEM s \<or> prefix END_BIB s)"

fun body_end :: "string \<Rightarrow> nat option" where
  "body_end [] = None"
| "body_end (c # cs) = (if entry_ahead (c # cs) then Some 0 else map_option Suc (body_end cs))"

text \<open>Group 1, group 2 and the length of the match, at the head of a string.\<close>

definition match_bibitem :: "string \<Rightarrow> (string \<times> string \<times> nat) option" where
  "match_bibitem s =
     (if prefix BIBITEM s
      then (let t = drop 9 s;
                key = takeWhile (\<lambda>x. x \<noteq> CHR ''}'') t
            in if key \<noteq> [] \<and> prefix ''}'' (drop (length key) t)
               then (let rest = drop (length key + 1) t
                     in case body_end rest of
                          None \<Rightarrow> None
                        | Some j \<Rightarrow> Some (key, take j rest, 9 + length key + 1 + j))
               else None)
      else None)"

lemma match_bibitem_pos: "match_bibitem s = Some (k, b, n) \<Longrightarrow> 0 < n"
  by (auto simp: match_bibitem_def Let_def split: if_splits option.splits)

text \<open>\<^verbatim>\<open>re.finditer(bibitem_pattern, bib_section, re.DOTALL)\<close>: groups 1 and 2 of each match.\<close>

function bibitem_finditer :: "string \<Rightarrow> (string \<times> string) list" where
  "bibitem_finditer s =
     (if s = [] then []
      else (case match_bibitem s of
              Some (k, b, n) \<Rightarrow> (k, b) # bibitem_finditer (drop n s)
            | None \<Rightarrow> bibitem_finditer (tl s)))"
  by pat_completeness auto
termination
  by (relation "measure length") (auto dest: match_bibitem_pos)

text \<open>
  The pattern \<^verbatim>\<open>\n\s*\n+\<close> at the head of a string. After the first newline,
  \<^verbatim>\<open>\s*\<close> takes the whole run of whitespace and gives characters back until
  \<^verbatim>\<open>\n+\<close> finds a newline: the last newline of the run, after which the run has no
  other. The match is the first newline and the run up to that last newline.
\<close>

definition match_blank :: "string \<Rightarrow> nat option" where
  "match_blank s =
     (case s of
        [] \<Rightarrow> None
      | c # t \<Rightarrow>
          if c = NL
          then (let run = takeWhile is_space t
                in if NL \<in> set run
                   then Some (1 + (length run - length (takeWhile (\<lambda>x. x \<noteq> NL) (rev run))))
                   else None)
          else None)"

lemma match_blank_pos: "match_blank s = Some n \<Longrightarrow> 0 < n"
  by (auto simp: match_blank_def Let_def split: list.splits if_splits)

text \<open>\<^verbatim>\<open>re.sub(r'\n\s*\n+', '\n', content)\<close>\<close>

function sub_blank :: "string \<Rightarrow> string" where
  "sub_blank s =
     (if s = [] then []
      else (case match_blank s of
              Some n \<Rightarrow> NL # sub_blank (drop n s)
            | None \<Rightarrow> hd s # sub_blank (tl s)))"
  by pat_completeness auto
termination
  by (relation "measure length") (auto dest: match_blank_pos)

text \<open>Lines 96 to 100: the body of an entry as it is stored.\<close>

definition clean_content :: "string \<Rightarrow> string" where
  "clean_content body = strip (sub_blank (strip body))"

text \<open>
  The dictionary \<open>entries\<close> is an association list in insertion order;
  \<^verbatim>\<open>entries[cite_key] = content\<close> is \<^const>\<open>AList.update\<close>: a key already present
  keeps its place and takes the new value, a new key goes to the end.
\<close>

definition store_entry :: "(string \<times> string) list \<Rightarrow> string \<times> string \<Rightarrow> (string \<times> string) list" where
  "store_entry entries m =
     (case m of (g1, g2) \<Rightarrow> AList.update (strip g1) (clean_content g2) entries)"

definition opening_line_of :: "string \<Rightarrow> string" where
  "opening_line_of bib_section =
     (case search_literal BEGIN_BIB bib_section of
        Some p \<Rightarrow> BEGIN_BIB @ takeWhile (\<lambda>x. x \<noteq> NL) (drop (p + length BEGIN_BIB) bib_section)
      | None \<Rightarrow> BEGIN_BIB)"

text \<open>
  The result \<^verbatim>\<open>(None, None, None)\<close> is \<^const>\<open>None\<close>; otherwise the entries, the bounds
  and the opening line.
\<close>

definition extract_bibliography_entries ::
  "string \<Rightarrow> ((string \<times> string) list \<times> (nat \<times> nat) \<times> string) option" where
  "extract_bibliography_entries tex_content =
     (case search_literal BEGIN_BIB tex_content of
        None \<Rightarrow> None
      | Some bs \<Rightarrow>
          (case search_literal END_BIB tex_content of
             None \<Rightarrow> None
           | Some es \<Rightarrow>
               (let bib_start = bs;
                    bib_end = es + length END_BIB;
                    bib_section = slice tex_content bib_start bib_end;
                    opening_line = opening_line_of bib_section;
                    entries = foldl store_entry [] (bibitem_finditer bib_section)
                in Some (entries, (bib_start, bib_end), opening_line))))"


section \<open>Bibliography reconciler\<close>

text \<open>What \<^verbatim>\<open>create_reordered_bibliography\<close> prints, one value for each \<^verbatim>\<open>print\<close>.\<close>

datatype diag =
  Processing nat
| Added nat string
| NoEntryWarning nat string
| AddingUnused nat
| AddedUnused string

record reconcile_state =
  reordered_entries :: "string list"
  used_citations :: "string set"
  printed :: "diag list"

definition full_entry :: "string \<Rightarrow> string \<Rightarrow> string" where
  "full_entry cite_key entry_content = BIBITEM @ cite_key @ ''}'' @ [NL] @ entry_content"

text \<open>The loop over \<^verbatim>\<open>enumerate(citation_order, 1)\<close>.\<close>

fun cited_pass ::
  "(string \<times> string) list \<Rightarrow> nat \<Rightarrow> string list \<Rightarrow> reconcile_state \<Rightarrow> reconcile_state" where
  "cited_pass bib_entries i [] st = st"
| "cited_pass bib_entries i (cite_key # rest) st =
     cited_pass bib_entries (Suc i) rest
       (case map_of bib_entries cite_key of
          Some entry_content \<Rightarrow>
            st\<lparr>reordered_entries := reordered_entries st @ [full_entry cite_key entry_content],
               used_citations := insert cite_key (used_citations st),
               printed := printed st @ [Added i cite_key]\<rparr>
        | None \<Rightarrow> st\<lparr>printed := printed st @ [NoEntryWarning i cite_key]\<rparr>)"

text \<open>The loop over \<open>unused_entries\<close>; every key of it is a key of \<open>bib_entries\<close>.\<close>

fun unused_pass ::
  "(string \<times> string) list \<Rightarrow> string list \<Rightarrow> reconcile_state \<Rightarrow> reconcile_state" where
  "unused_pass bib_entries [] st = st"
| "unused_pass bib_entries (cite_key # rest) st =
     unused_pass bib_entries rest
       (case map_of bib_entries cite_key of
          Some entry_content \<Rightarrow>
            st\<lparr>reordered_entries := reordered_entries st @ [full_entry cite_key entry_content],
               printed := printed st @ [AddedUnused cite_key]\<rparr>
        | None \<Rightarrow> st)"

definition create_reordered_bibliography ::
  "string list \<Rightarrow> (string \<times> string) list \<Rightarrow> string \<Rightarrow> diag list \<times> string option" where
  "create_reordered_bibliography citation_order bib_entries opening_line =
     (if bib_entries = [] then ([], None)
      else (let st = \<lparr>reordered_entries = [], used_citations = {},
                       printed = [Processing (length citation_order)]\<rparr>;
                st = cited_pass bib_entries 1 citation_order st;
                unused_entries = filter (\<lambda>key. key \<notin> used_citations st) (map fst bib_entries);
                st = (if unused_entries \<noteq> []
                      then unused_pass bib_entries unused_entries
                             (st\<lparr>printed := printed st @ [AddingUnused (length unused_entries)]\<rparr>)
                      else st);
                bib_content = opening_line @ [NL, NL] @ join [NL, NL] (reordered_entries st)
                              @ [NL] @ END_BIB
            in (printed st, Some bib_content)))"


section \<open>Document rewriter and command line\<close>

text \<open>
  The files the program can reach: a path has no file, a file that cannot be read as
  UTF-8 text, or a text; \<open>writable\<close> tells whether \<^verbatim>\<open>open(path, 'w')\<close> succeeds.
  Console output outside the reconciler is not modelled; each \<^verbatim>\<open>return False\<close> of
  \<^verbatim>\<open>reorder_latex_bibliography\<close> carries the name of the message printed before it.
\<close>

datatype file_state = NoFile | Unreadable | Text string

record env =
  files :: "string \<Rightarrow> file_state"
  writable :: "string \<Rightarrow> bool"

datatype failure =
  FileNotFound
| ReadError
| NoCitationsFound
| DelimiterError
| CreateFailed
| WriteError

datatype outcome = Failed failure | Succeeded

definition TEX :: string where
  "TEX = ''.tex''"

definition REORDERED_TEX :: string where
  "REORDERED_TEX = ''_reordered.tex''"

definition default_output :: "string \<Rightarrow> string" where
  "default_output input_file = str_replace TEX REORDERED_TEX input_file"

text \<open>
  Lines 165 to 201 of \<^verbatim>\<open>reorder_latex_bibliography\<close>, between reading the input and
  writing the output: the new bibliography section and the new content.
\<close>

definition reorder_content :: "string \<Rightarrow> failure + (string \<times> string)" where
  "reorder_content content =
     (let citation_tracker = find_all_citations content
      in if citations citation_tracker = [] then Inl NoCitationsFound
         else (let citation_order = get_ordered_citations citation_tracker
               in case extract_bibliography_entries content of
                    None \<Rightarrow> Inl DelimiterError
                  | Some (bib_entries, (bib_start, bib_end), opening_line) \<Rightarrow>
                      (case snd (create_reordered_bibliography citation_order bib_entries
                                   opening_line) of
                         None \<Rightarrow> Inl CreateFailed
                       | Some new_bib_section \<Rightarrow>
                           Inr (new_bib_section,
                                take bib_start content @ new_bib_section
                                @ drop bib_end content))))"

definition reorder_latex_bibliography :: "env \<Rightarrow> string \<Rightarrow> string option \<Rightarrow> outcome \<times> env" where
  "reorder_latex_bibliography e input_file output_file =
     (case files e input_file of
        NoFile \<Rightarrow> (Failed FileNotFound, e)
      | Unreadable \<Rightarrow> (Failed ReadError, e)
      | Text content \<Rightarrow>
          (case reorder_content content of
             Inl f \<Rightarrow> (Failed f, e)
           | Inr (new_bib_section, new_content) \<Rightarrow>
               (let output_file = (case output_file of
                                     None \<Rightarrow> default_output input_file
                                   | Some p \<Rightarrow> p)
                in if writable e output_file
                   then (Succeeded, e\<lparr>files := (files e)(output_file := Text new_content)\<rparr>)
                   else (Failed WriteError, e))))"

text \<open>
  \<^verbatim>\<open>main\<close>: the exit status and the files afterwards. \<open>argv\<close> includes the program name.
\<close>

definition main :: "string list \<Rightarrow> env \<Rightarrow> nat \<times> env" where
  "main argv e =
     (if length argv < 2 then (0, e)
      else (let input_file = argv ! 1;
                output_file = (if length argv > 2 then Some (argv ! 2) else None)
            in case reorder_latex_bibliography e input_file output_file of
                 (Succeeded, e') \<Rightarrow> (0, e')
               | (Failed f, e') \<Rightarrow> (1, e')))"


section \<open>The reconciled block as the specification words it\<close>

text \<open>
  Matched entries are the cited keys that have an entry, in citation order; orphaned
  entries are the keys of the mapping that are not cited, in the order of the mapping. The
  block is the opening line, a blank line, the entries with a blank line between them,
  and the end marker on a line of its own.
\<close>

definition matched_keys :: "string list \<Rightarrow> (string \<times> string) list \<Rightarrow> string list" where
  "matched_keys citation_order bib_entries =
     filter (\<lambda>k. k \<in> fst ` set bib_entries) citation_order"

definition orphan_keys :: "string list \<Rightarrow> (string \<times> string) list \<Rightarrow> string list" where
  "orphan_keys citation_order bib_entries =
     filter (\<lambda>k. k \<notin> set citation_order) (map fst bib_entries)"

definition reconciled_keys :: "string list \<Rightarrow> (string \<times> string) list \<Rightarrow> string list" where
  "reconciled_keys citation_order bib_entries =
     matched_keys citation_order bib_entries @ orphan_keys citation_order bib_entries"

definition entry_text :: "(string \<times> string) list \<Rightarrow> string \<Rightarrow> string" where
  "entry_text bib_entries k =
     (case map_of bib_entries k of Some body \<Rightarrow> full_entry k body | None \<Rightarrow> [])"

definition serialize :: "string \<Rightarrow> string list \<Rightarrow> string" where
  "serialize opening_line entries =
     opening_line @ [NL, NL] @ join [NL, NL] entries @ [NL] @ END_BIB"

definition cited_diag :: "(string \<times> string) list \<Rightarrow> nat \<times> string \<Rightarrow> diag" where
  "cited_diag bib_entries p =
     (case p of (i, k) \<Rightarrow> if k \<in> fst ` set bib_entries then Added i k else NoEntryWarning i k)"


section \<open>What the reconciler computes\<close>

lemma map_of_None_iff: "map_of be k = None \<longleftrightarrow> k \<notin> fst ` set be"
  by (simp add: map_of_eq_None_iff)

lemma map_of_Some_key: "map_of be k = Some v \<Longrightarrow> k \<in> fst ` set be"
  by (metis map_of_None_iff option.distinct(1))

lemma cited_pass_entries:
  "reordered_entries (cited_pass be i co st) =
     reordered_entries st @ map (entry_text be) (matched_keys co be)"
  by (induction co arbitrary: i st)
     (auto simp: matched_keys_def entry_text_def map_of_None_iff split: option.splits
           dest: map_of_Some_key)

lemma cited_pass_used:
  "used_citations (cited_pass be i co st) = used_citations st \<union> set (matched_keys co be)"
  by (induction co arbitrary: i st)
     (auto simp: matched_keys_def map_of_None_iff split: option.splits
           dest: map_of_Some_key)

lemma cited_pass_printed:
  "printed (cited_pass be i co st) =
     printed st @ map (cited_diag be) (zip [i ..< i + length co] co)"
proof (induction co arbitrary: i st)
  case Nil
  then show ?case by simp
next
  case (Cons k co)
  have "[i ..< i + length (k # co)] = i # [Suc i ..< Suc i + length co]"
    by (simp add: upt_rec)
  then show ?case
    by (auto simp: Cons.IH cited_diag_def map_of_None_iff split: option.splits
             dest: map_of_Some_key)
qed

lemma unused_pass_entries:
  "set ks \<subseteq> fst ` set be \<Longrightarrow>
   reordered_entries (unused_pass be ks st) = reordered_entries st @ map (entry_text be) ks"
  by (induction ks arbitrary: st)
     (auto simp: entry_text_def map_of_None_iff split: option.splits)

lemma unused_pass_printed:
  "set ks \<subseteq> fst ` set be \<Longrightarrow>
   printed (unused_pass be ks st) = printed st @ map AddedUnused ks"
  by (induction ks arbitrary: st)
     (auto simp: map_of_None_iff split: option.splits)

lemma unused_filter:
  "filter (\<lambda>key. key \<notin> set (matched_keys co be)) (map fst be) = orphan_keys co be"
  unfolding orphan_keys_def matched_keys_def
  by (rule filter_cong) auto

lemma create_block:
  assumes "be \<noteq> []"
  shows "snd (create_reordered_bibliography co be ol) =
           Some (serialize ol (map (entry_text be) (reconciled_keys co be)))"
proof -
  have sub: "set (orphan_keys co be) \<subseteq> fst ` set be"
    by (auto simp: orphan_keys_def)
  show ?thesis
    using assms sub
    by (simp add: create_reordered_bibliography_def Let_def cited_pass_entries cited_pass_used
        unused_filter unused_pass_entries serialize_def reconciled_keys_def)
qed

lemma create_printed:
  assumes "be \<noteq> []"
  shows "fst (create_reordered_bibliography co be ol) =
           Processing (length co) # map (cited_diag be) (zip [1 ..< 1 + length co] co)
           @ (if orphan_keys co be = [] then []
              else AddingUnused (length (orphan_keys co be)) # map AddedUnused (orphan_keys co be))"
proof -
  have sub: "set (orphan_keys co be) \<subseteq> fst ` set be"
    by (auto simp: orphan_keys_def)
  show ?thesis
    using assms sub
    by (simp add: create_reordered_bibliography_def Let_def cited_pass_printed cited_pass_used
        unused_filter unused_pass_printed)
qed

lemma reconciled_keys_mset:
  assumes "distinct (map fst be)" "distinct co"
  shows "mset (reconciled_keys co be) = mset (map fst be)"
proof -
  have d: "distinct (reconciled_keys co be)"
    using assms by (auto simp: reconciled_keys_def matched_keys_def orphan_keys_def)
  have s: "set (reconciled_keys co be) = set (map fst be)"
    by (auto simp: reconciled_keys_def matched_keys_def orphan_keys_def)
  from d s assms(1) show ?thesis
    using set_eq_iff_mset_eq_distinct by blast
qed

lemma entry_text_own:
  assumes "distinct (map fst be)"
  shows "map (entry_text be) (map fst be) = map (\<lambda>(k, body). full_entry k body) be"
proof -
  have "entry_text be (fst p) = (case p of (k, body) \<Rightarrow> full_entry k body)" if "p \<in> set be" for p
  proof -
    obtain k body where p: "p = (k, body)" by (cases p)
    with that assms have "map_of be k = Some body" by simp
    with p show ?thesis by (simp add: entry_text_def)
  qed
  then show ?thesis by simp
qed

lemma no_match_keys:
  assumes "set co \<inter> fst ` set be = {}"
  shows "reconciled_keys co be = map fst be"
proof -
  have "matched_keys co be = []"
    using assms by (auto simp: matched_keys_def filter_empty_conv)
  moreover have "orphan_keys co be = map fst be"
    using assms by (auto simp: orphan_keys_def filter_id_conv)
  ultimately show ?thesis by (simp add: reconciled_keys_def)
qed

text \<open>A document with a citation and a bibliography that has no entry.\<close>

definition empty_bib_doc :: string where
  "empty_bib_doc = CITE @ ''{a}'' @ [NL] @ BEGIN_BIB @ ''{9}'' @ [NL] @ END_BIB"


section \<open>The reconciler: results and diagnostics\<close>

text \<open>
  Claim C2, as amended. For the empty mapping the reconciler returns no block and prints
  nothing. For every other mapping and every citation order it returns a block: the
  opening line and the end marker around the matched entries followed by the orphaned
  ones. When the mapping has no key twice and no cited key has an entry, the block holds
  the entries of the mapping in their original order.
\<close>

theorem reconciler_block_or_none:
  "(be = [] \<longrightarrow> create_reordered_bibliography co be ol = ([], None)) \<and>
   (be \<noteq> [] \<longrightarrow>
      snd (create_reordered_bibliography co be ol) =
        Some (serialize ol (map (entry_text be) (reconciled_keys co be)))) \<and>
   (be \<noteq> [] \<and> distinct (map fst be) \<and> set co \<inter> fst ` set be = {} \<longrightarrow>
      snd (create_reordered_bibliography co be ol) =
        Some (serialize ol (map (\<lambda>(k, body). full_entry k body) be)))"
proof (intro conjI impI)
  assume "be = []"
  then show "create_reordered_bibliography co be ol = ([], None)"
    by (simp add: create_reordered_bibliography_def)
next
  assume "be \<noteq> []"
  then show "snd (create_reordered_bibliography co be ol) =
        Some (serialize ol (map (entry_text be) (reconciled_keys co be)))"
    by (rule create_block)
next
  assume a: "be \<noteq> [] \<and> distinct (map fst be) \<and> set co \<inter> fst ` set be = {}"
  then have "reconciled_keys co be = map fst be"
    by (simp add: no_match_keys)
  with a have "map (entry_text be) (reconciled_keys co be) = map (\<lambda>(k, body). full_entry k body) be"
    by (metis entry_text_own)
  with a show "snd (create_reordered_bibliography co be ol) =
        Some (serialize ol (map (\<lambda>(k, body). full_entry k body) be))"
    by (simp add: create_block)
qed

text \<open>The theorem at one cited key without an entry and two entries that are not cited.\<close>

theorem reconciler_block_or_none_witness:
  "snd (create_reordered_bibliography [''q''] [(''w'', ''Omega''), (''v'', ''Vee'')] BEGIN_BIB) =
     Some (serialize BEGIN_BIB [full_entry ''w'' ''Omega'', full_entry ''v'' ''Vee''])"
  using reconciler_block_or_none [of "[(''w'', ''Omega''), (''v'', ''Vee'')]" "[''q'']" BEGIN_BIB]
  by (simp add: reconciled_keys_def matched_keys_def orphan_keys_def entry_text_def)

text \<open>
  Claim C2 as stated fails for the empty mapping: the parser succeeds on a bibliography
  without entries, the reconciler returns no block for it, and the operation stops with
  the message of line 196.
\<close>

theorem empty_mapping_counterexample:
  "extract_bibliography_entries empty_bib_doc = Some ([], (9, 57), BEGIN_BIB @ ''{9}'') \<and>
   create_reordered_bibliography [''a''] [] (BEGIN_BIB @ ''{9}'') = ([], None) \<and>
   reorder_content empty_bib_doc = Inl CreateFailed"
  by code_simp

text \<open>
  Claim C7, as amended. When the mapping is not empty, a cited key without an entry at
  place \<open>i\<close> of the citation order (counted from 0) is reported with the number
  \<open>i + 1\<close>, the block is still produced, and the key is not among the keys of the block,
  which are exactly the keys of the mapping. The matched entries are the cited keys that
  have an entry, in citation order, and these are the keys marked used.
\<close>

theorem missing_key_skipped:
  assumes "be \<noteq> []" and "i < length co" and "co ! i \<notin> fst ` set be"
  shows "NoEntryWarning (Suc i) (co ! i) \<in> set (fst (create_reordered_bibliography co be ol)) \<and>
         snd (create_reordered_bibliography co be ol) =
           Some (serialize ol (map (entry_text be) (matched_keys co be)
                               @ map (entry_text be) (orphan_keys co be))) \<and>
         co ! i \<notin> set (matched_keys co be @ orphan_keys co be) \<and>
         set (matched_keys co be @ orphan_keys co be) = fst ` set be \<and>
         matched_keys co be = filter (\<lambda>k. k \<in> fst ` set be) co \<and>
         used_citations (cited_pass be 1 co st) = used_citations st \<union> set (matched_keys co be)"
proof -
  have "zip [1 ..< 1 + length co] co ! i = (Suc i, co ! i)"
    using assms(2) by (simp del: upt_Suc)
  moreover have "i < length (zip [1 ..< 1 + length co] co)"
    using assms(2) by simp
  ultimately have "(Suc i, co ! i) \<in> set (zip [1 ..< 1 + length co] co)"
    by (metis nth_mem)
  then have "cited_diag be (Suc i, co ! i) \<in> set (map (cited_diag be) (zip [1 ..< 1 + length co] co))"
    unfolding set_map by (rule imageI)
  then have 1: "NoEntryWarning (Suc i) (co ! i) \<in> set (fst (create_reordered_bibliography co be ol))"
    using assms(1,3) by (simp add: create_printed cited_diag_def)
  have 2: "snd (create_reordered_bibliography co be ol) =
           Some (serialize ol (map (entry_text be) (matched_keys co be)
                               @ map (entry_text be) (orphan_keys co be)))"
    using assms(1) by (simp add: create_block reconciled_keys_def)
  have 3: "co ! i \<notin> set (matched_keys co be @ orphan_keys co be)"
    using assms(3) by (auto simp: matched_keys_def orphan_keys_def)
  have 4: "set (matched_keys co be @ orphan_keys co be) = fst ` set be"
    by (auto simp: matched_keys_def orphan_keys_def)
  have 5: "matched_keys co be = filter (\<lambda>k. k \<in> fst ` set be) co"
    by (simp add: matched_keys_def)
  have 6: "used_citations (cited_pass be 1 co st) = used_citations st \<union> set (matched_keys co be)"
    by (rule cited_pass_used)
  from 1 2 3 4 5 6 show ?thesis
    by (intro conjI)
qed

text \<open>The theorem at the citation order \<open>b, q, a\<close> with entries for \<open>a\<close> and \<open>b\<close>.\<close>

theorem missing_key_skipped_witness:
  "NoEntryWarning 2 ''q'' \<in> set (fst (create_reordered_bibliography [''b'', ''q'', ''a'']
       [(''a'', ''Alpha''), (''b'', ''Beta'')] BEGIN_BIB)) \<and>
   snd (create_reordered_bibliography [''b'', ''q'', ''a''] [(''a'', ''Alpha''), (''b'', ''Beta'')] BEGIN_BIB) =
     Some (serialize BEGIN_BIB [full_entry ''b'' ''Beta'', full_entry ''a'' ''Alpha''])"
  using missing_key_skipped [of "[(''a'', ''Alpha''), (''b'', ''Beta'')]" 1 "[''b'', ''q'', ''a'']" BEGIN_BIB
      "\<lparr>reordered_entries = [], used_citations = {}, printed = []\<rparr>"]
  by (simp add: matched_keys_def orphan_keys_def entry_text_def numeral_2_eq_2)

text \<open>
  Claim C7 as stated fails when the mapping is empty: the cited key has no entry, and
  the reconciler prints no diagnostic and returns no block.
\<close>

theorem missing_key_counterexample:
  "NoEntryWarning 1 ''q'' \<notin> set (fst (create_reordered_bibliography [''q''] [] BEGIN_BIB)) \<and>
   snd (create_reordered_bibliography [''q''] [] BEGIN_BIB) = None"
  by (simp add: create_reordered_bibliography_def)


section \<open>The derived output path\<close>

lemma str_replace_absent:
  "\<not> sublist old p \<Longrightarrow> str_replace old new p = p"
proof (induction p)
  case Nil
  show ?case by (simp only: str_replace.simps)
next
  case (Cons c cs)
  have 1: "\<not> prefix old (c # cs)"
    using Cons.prems by (meson prefix_imp_sublist)
  have 2: "\<not> sublist old cs"
    using Cons.prems by (simp add: sublist_Cons_right)
  have "str_replace old new (c # cs) = c # str_replace old new cs"
    using 1 by (simp only: str_replace.simps simp_thms if_False)
  also have "\<dots> = c # cs"
    using Cons.IH [OF 2] by (simp only:)
  finally show ?case .
qed

lemma tex_no_straddle:
  assumes "prefix TEX (c # cs @ TEX @ b)"
  shows "prefix TEX (c # cs)"
proof (cases cs)
  case Nil
  with assms show ?thesis by (simp add: TEX_def)
next
  case c1: (Cons x xs)
  show ?thesis
  proof (cases xs)
    case Nil
    with assms c1 show ?thesis by (simp add: TEX_def)
  next
    case c2: (Cons y ys)
    show ?thesis
    proof (cases ys)
      case Nil
      with assms c1 c2 show ?thesis by (simp add: TEX_def)
    next
      case (Cons z zs)
      with assms c1 c2 show ?thesis by (simp add: TEX_def)
    qed
  qed
qed

lemma TEX_nonempty: "TEX \<noteq> []"
  by (simp add: TEX_def)

lemma str_replace_tex_first:
  "\<not> sublist TEX a \<Longrightarrow>
   str_replace TEX new (a @ TEX @ b) = a @ new @ str_replace TEX new b"
proof (induction a)
  case Nil
  have "TEX @ b = CHR ''.'' # (''tex'' @ b)" by (simp add: TEX_def)
  moreover have "prefix TEX (CHR ''.'' # (''tex'' @ b))" by (simp add: TEX_def)
  moreover have "drop (length TEX) (CHR ''.'' # (''tex'' @ b)) = b" by (simp add: TEX_def)
  ultimately have "str_replace TEX new (TEX @ b) = new @ str_replace TEX new b"
    using TEX_nonempty by (simp only: str_replace.simps simp_thms if_True)
  then show ?case by simp
next
  case (Cons c cs)
  have 1: "\<not> prefix TEX (c # cs)"
    using Cons.prems by (meson prefix_imp_sublist)
  have 2: "\<not> sublist TEX cs"
    using Cons.prems by (simp add: sublist_Cons_right)
  have 3: "\<not> prefix TEX (c # (cs @ TEX @ b))"
    using 1 tex_no_straddle by blast
  have "str_replace TEX new ((c # cs) @ TEX @ b) = str_replace TEX new (c # (cs @ TEX @ b))"
    by simp
  also have "\<dots> = c # str_replace TEX new (cs @ TEX @ b)"
    using 3 by (simp only: str_replace.simps simp_thms if_False)
  also have "\<dots> = c # (cs @ new @ str_replace TEX new b)"
    using Cons.IH [OF 2] by (simp only:)
  finally show ?case by simp
qed

lemma not_sublist_paper: "\<not> sublist TEX ''paper''"
  by code_simp

text \<open>
  What \<^verbatim>\<open>input_file.replace('.tex', '_reordered.tex')\<close> computes: the leftmost
  occurrence of \<^verbatim>\<open>.tex\<close> is rewritten and the rest of the path is treated the same way,
  and a path without \<^verbatim>\<open>.tex\<close> is returned as it is. Without an explicit output path a
  successful run writes to the path computed in this way and to no other.
\<close>

theorem default_output_every_tex:
  "(\<not> sublist TEX a \<longrightarrow>
      default_output (a @ TEX @ b) = a @ REORDERED_TEX @ default_output b) \<and>
   (\<not> sublist TEX p \<longrightarrow> default_output p = p) \<and>
   (reorder_latex_bibliography e p None = (Succeeded, e') \<longrightarrow>
      (\<exists>new_content. e' = e\<lparr>files := (files e)(default_output p := Text new_content)\<rparr>))"
proof (intro conjI impI)
  assume "\<not> sublist TEX a"
  then show "default_output (a @ TEX @ b) = a @ REORDERED_TEX @ default_output b"
    unfolding default_output_def by (rule str_replace_tex_first)
next
  assume "\<not> sublist TEX p"
  then show "default_output p = p"
    unfolding default_output_def by (rule str_replace_absent)
next
  assume a: "reorder_latex_bibliography e p None = (Succeeded, e')"
  show "\<exists>new_content. e' = e\<lparr>files := (files e)(default_output p := Text new_content)\<rparr>"
  proof (cases "files e p")
    case NoFile
    with a show ?thesis by (simp add: reorder_latex_bibliography_def)
  next
    case Unreadable
    with a show ?thesis by (simp add: reorder_latex_bibliography_def)
  next
    case (Text content)
    show ?thesis
    proof (cases "reorder_content content")
      case (Inl f)
      with a Text show ?thesis by (simp add: reorder_latex_bibliography_def)
    next
      case (Inr r)
      obtain blk new_content where r: "r = (blk, new_content)" by (cases r)
      from a Text Inr r have "e' = e\<lparr>files := (files e)(default_output p := Text new_content)\<rparr>"
        by (simp add: reorder_latex_bibliography_def Let_def split: if_splits)
      then show ?thesis by blast
    qed
  qed
qed

text \<open>The theorem at the path \<^verbatim>\<open>paper.tex\<close>.\<close>

theorem default_output_every_tex_witness:
  "default_output ''paper.tex'' = ''paper_reordered.tex''"
proof -
  have 1: "default_output (''paper'' @ TEX @ []) = ''paper'' @ REORDERED_TEX @ default_output []"
    using default_output_every_tex [of "''paper''" "[]"] not_sublist_paper by blast
  have 2: "''paper'' @ TEX @ [] = ''paper.tex''" by (simp add: TEX_def)
  have 3: "default_output [] = []" by (simp add: default_output_def)
  have 4: "''paper'' @ REORDERED_TEX @ [] = ''paper_reordered.tex''" by (simp add: REORDERED_TEX_def)
  from 1 2 3 4 show ?thesis by (simp only:)
qed

text \<open>
  Claim C9. The claim rewrites the trailing extension of the input path and nothing
  else. The code replaces every occurrence of \<^verbatim>\<open>.tex\<close>: at the path
  \<^verbatim>\<open>v1.tex.d/paper.tex\<close> the directory part is rewritten as well, and at
  \<^verbatim>\<open>notes.txt\<close>, which has no such extension, the derived path is the input path
  itself, so that a successful run writes its output over its input.
\<close>

theorem default_output_counterexample:
  "default_output ''v1.tex.d/paper.tex'' = ''v1_reordered.tex.d/paper_reordered.tex'' \<and>
   default_output ''v1.tex.d/paper.tex'' \<noteq> ''v1.tex.d/paper_reordered.tex'' \<and>
   default_output ''notes.txt'' = ''notes.txt''"
  by code_simp


section \<open>Delimiters, failures and the frame of the rewrite\<close>

lemma search_literal_None_iff: "search_literal pat s = None \<longleftrightarrow> \<not> sublist pat s"
proof (induction s)
  case Nil
  show ?case by simp
next
  case (Cons c cs)
  show ?case
  proof (cases "prefix pat (c # cs)")
    case True
    then have "sublist pat (c # cs)" by (rule prefix_imp_sublist)
    with True show ?thesis by (simp only: search_literal.simps if_True) simp
  next
    case False
    have "sublist pat (c # cs) \<longleftrightarrow> sublist pat cs"
      using False by (simp add: sublist_Cons_right)
    with False Cons.IH show ?thesis
      by (simp only: search_literal.simps if_False) simp
  qed
qed

lemma search_literal_Some:
  "search_literal pat s = Some i \<Longrightarrow> i + length pat \<le> length s \<and> prefix pat (drop i s)"
proof (induction s arbitrary: i)
  case Nil
  then show ?case by (simp split: if_splits)
next
  case (Cons c cs)
  show ?case
  proof (cases "prefix pat (c # cs)")
    case True
    with Cons.prems have "i = 0" by (simp only: search_literal.simps if_True) simp
    moreover from True have "length pat \<le> length (c # cs)" by (rule prefix_length_le)
    ultimately show ?thesis using True by simp
  next
    case False
    with Cons.prems have "map_option Suc (search_literal pat cs) = Some i"
      by (simp only: search_literal.simps if_False)
    then obtain j where j: "search_literal pat cs = Some j" "i = Suc j" by auto
    from Cons.IH [OF j(1)] j(2) show ?thesis by simp
  qed
qed

lemma bibitem_finditer_Nil: "bibitem_finditer [] = []"
  by (subst bibitem_finditer.simps) simp

lemma extract_absent:
  assumes "\<not> sublist BEGIN_BIB content \<or> \<not> sublist END_BIB content"
  shows "extract_bibliography_entries content = None"
  using assms
  by (auto simp: extract_bibliography_entries_def search_literal_None_iff [symmetric]
           split: option.splits)

text \<open>A document with one citation and no bibliography; an environment with one file.\<close>

definition cite_only_doc :: string where
  "cite_only_doc = ''See '' @ CITE @ ''{a}.''"

definition one_file :: "string \<Rightarrow> string \<Rightarrow> env" where
  "one_file path content =
     \<lparr>files = (\<lambda>p. if p = path then Text content else NoFile), writable = (\<lambda>p. True)\<rparr>"

text \<open>
  Claim C6, as amended. When the begin marker or the end marker does not occur in the
  document, the parser returns its error result, the operation fails and leaves every
  file as it was, and \<^verbatim>\<open>main\<close> exits with status 1, with or without an explicit output
  path. The failure is the delimiter error when the document has a citation; a document
  without citations has already failed with the no-citations message of line 168.
\<close>

theorem missing_delimiter_aborts:
  assumes "\<not> sublist BEGIN_BIB content \<or> \<not> sublist END_BIB content"
    and "files e input_file = Text content"
  shows "extract_bibliography_entries content = None \<and>
         reorder_latex_bibliography e input_file output_file =
           (Failed (if citations (find_all_citations content) = []
                    then NoCitationsFound else DelimiterError), e) \<and>
         main [prog, input_file] e = (1, e) \<and>
         main [prog, input_file, out] e = (1, e)"
proof -
  have 1: "extract_bibliography_entries content = None"
    using assms(1) by (rule extract_absent)
  have 2: "reorder_content content =
             Inl (if citations (find_all_citations content) = []
                  then NoCitationsFound else DelimiterError)"
    using 1 by (simp add: reorder_content_def Let_def)
  have 3: "reorder_latex_bibliography e input_file ofile =
           (Failed (if citations (find_all_citations content) = []
                    then NoCitationsFound else DelimiterError), e)" for ofile
    using 2 assms(2) by (simp add: reorder_latex_bibliography_def)
  have 4: "main [prog, input_file] e = (1, e)"
    using 3 [of None] by (simp add: main_def)
  have 5: "main [prog, input_file, out] e = (1, e)"
    using 3 [of "Some out"] by (simp add: main_def)
  from 1 3 4 5 show ?thesis by (intro conjI)
qed

text \<open>The theorem at a document with one citation and no bibliography.\<close>

theorem missing_delimiter_aborts_witness:
  "reorder_latex_bibliography (one_file ''a.tex'' cite_only_doc) ''a.tex'' None =
     (Failed DelimiterError, one_file ''a.tex'' cite_only_doc) \<and>
   main [''prog'', ''a.tex''] (one_file ''a.tex'' cite_only_doc) =
     (1, one_file ''a.tex'' cite_only_doc)"
proof -
  have 1: "\<not> sublist BEGIN_BIB cite_only_doc \<or> \<not> sublist END_BIB cite_only_doc"
    by code_simp
  have 2: "files (one_file ''a.tex'' cite_only_doc) ''a.tex'' = Text cite_only_doc"
    by (simp add: one_file_def)
  have 3: "citations (find_all_citations cite_only_doc) \<noteq> []"
    by code_simp
  show ?thesis
    using missing_delimiter_aborts [OF 1 2, of None "''prog''" "''out.tex''"] 3 by simp
qed

text \<open>
  Claim C6 as stated fails for a document with neither citations nor delimiters: the
  operation fails, but with the no-citations failure, which is checked first.
\<close>

theorem delimiter_error_counterexample:
  "\<not> sublist BEGIN_BIB ''plain text'' \<and>
   fst (reorder_latex_bibliography (one_file ''a.tex'' ''plain text'') ''a.tex'' None) =
     Failed NoCitationsFound \<and>
   fst (reorder_latex_bibliography (one_file ''a.tex'' ''plain text'') ''a.tex'' None) \<noteq>
     Failed DelimiterError"
  by code_simp

lemma create_Some_nonempty:
  "snd (create_reordered_bibliography co be ol) = Some blk \<Longrightarrow> be \<noteq> []"
  by (auto simp: create_reordered_bibliography_def)

lemma extract_bounds:
  assumes "extract_bibliography_entries content = Some (entries, (bs, be), ol)"
    and "entries \<noteq> []"
  shows "bs < be \<and> be \<le> length content"
proof -
  from assms(1) obtain es where
    b: "search_literal BEGIN_BIB content = Some bs" and
    e: "search_literal END_BIB content = Some es" and
    be: "be = es + length END_BIB" and
    ent: "entries = foldl store_entry [] (bibitem_finditer (slice content bs be))"
    by (auto simp: extract_bibliography_entries_def Let_def split: option.splits)
  from search_literal_Some [OF e] be have le: "be \<le> length content" by simp
  have "bs < be"
  proof (rule ccontr)
    assume "\<not> bs < be"
    then have "slice content bs be = []" by (simp add: slice_def)
    with ent have "entries = []" by (simp add: bibitem_finditer_Nil)
    with assms(2) show False by simp
  qed
  with le show ?thesis by simp
qed

text \<open>A document with two entries, cited in the reverse order, and one character after the block.\<close>

definition two_entry_doc :: string where
  "two_entry_doc = CITE @ ''{b}'' @ BEGIN_BIB @ ''{9}'' @ [NL] @ BIBITEM @ ''a} A'' @ [NL]
     @ BIBITEM @ ''b} B'' @ [NL] @ END_BIB @ ''!''"

text \<open>
  Claim C5. Whenever the rewrite produces a new content, it is the text before the start
  of the block, the reconciled block, and the text from the end of the block on, where
  the bounds are those the parser returned; the bounds are in order and inside the
  document, so the part before the block and the part after it are unchanged.
\<close>

theorem rewrite_frame:
  assumes "reorder_content content = Inr (blk, new_content)"
  shows "\<exists>entries bs be ol.
           extract_bibliography_entries content = Some (entries, (bs, be), ol) \<and>
           snd (create_reordered_bibliography
                  (get_ordered_citations (find_all_citations content)) entries ol) = Some blk \<and>
           new_content = slice content 0 bs @ blk @ drop be content \<and>
           bs < be \<and> be \<le> length content \<and>
           take bs new_content = take bs content \<and>
           drop (bs + length blk) new_content = drop be content"
proof -
  from assms obtain entries bs be ol where
    ex: "extract_bibliography_entries content = Some (entries, (bs, be), ol)" and
    cr: "snd (create_reordered_bibliography
               (get_ordered_citations (find_all_citations content)) entries ol) = Some blk" and
    nc: "new_content = take bs content @ blk @ drop be content"
    by (auto simp: reorder_content_def Let_def split: if_splits option.splits)
  from cr have "entries \<noteq> []" by (rule create_Some_nonempty)
  with ex have bnd: "bs < be \<and> be \<le> length content" by (rule extract_bounds)
  then have len: "length (take bs content) = bs" by simp
  have t: "take bs new_content = take bs content"
    using nc len by simp
  have d: "drop (bs + length blk) new_content = drop be content"
    using nc len by simp
  have s: "new_content = slice content 0 bs @ blk @ drop be content"
    using nc by (simp add: slice_def)
  from ex cr s bnd t d show ?thesis by blast
qed

text \<open>The theorem at a document whose block spans the positions 8 to 84.\<close>

theorem rewrite_frame_witness:
  "\<not> isl (reorder_content two_entry_doc) \<and>
   take 8 (snd (projr (reorder_content two_entry_doc))) = take 8 two_entry_doc \<and>
   drop (8 + length (fst (projr (reorder_content two_entry_doc))))
     (snd (projr (reorder_content two_entry_doc))) = ''!''"
proof -
  have 1: "\<not> isl (reorder_content two_entry_doc)" by code_simp
  then obtain blk new_content where r: "reorder_content two_entry_doc = Inr (blk, new_content)"
    by (cases "reorder_content two_entry_doc") auto
  have 2: "map_option (fst \<circ> snd) (extract_bibliography_entries two_entry_doc) = Some (8, 84)"
    by code_simp
  have 3: "drop 84 two_entry_doc = ''!''" by code_simp
  from rewrite_frame [OF r] 2 3 r 1 show ?thesis by auto
qed

section \<open>Occurrences and the resolved citation order\<close>

text \<open>
  The occurrences of the specification: every marker yields one occurrence for each
  component of its key group, split at the commas, tagged with the position of the marker
  and the place of the component in the group, and carrying the stripped key. A group
  without a comma has the single component that is the whole group.
\<close>

definition marker_occurrences :: "nat \<times> string \<Rightarrow> ((nat \<times> nat) \<times> string) list" where
  "marker_occurrences m =
     (case m of (position, g) \<Rightarrow>
        map (\<lambda>(i, k). ((position, i), strip k)) (enumerate 0 (split_on (CHR '','') g)))"

definition occurrences :: "string \<Rightarrow> ((nat \<times> nat) \<times> string) list" where
  "occurrences tex_content = concat (map marker_occurrences (cite_finditer 0 tex_content))"

text \<open>
  The keys of a list in the order of their first appearance, each once; and the index of
  the first occurrence of a key, for a key that occurs.
\<close>

fun first_keys :: "string list \<Rightarrow> string list" where
  "first_keys [] = []"
| "first_keys (k # ks) = k # removeAll k (first_keys ks)"

definition first_index :: "((nat \<times> nat) \<times> string) list \<Rightarrow> string \<Rightarrow> nat \<times> nat" where
  "first_index occ k = fst (hd (filter (\<lambda>x. snd x = k) occ))"

text \<open>
  The number under which \<^verbatim>\<open>add_citation\<close> is called for the component \<open>i\<close> of a marker
  at \<open>position\<close>; for \<open>i = 0\<close> it is the position itself, which is also what the branch
  without a comma passes.
\<close>

definition sort_position :: "nat \<times> nat \<Rightarrow> rat" where
  "sort_position ix = of_nat (fst ix) + of_nat (snd ix) * (1 / 1000)"

text \<open>
  The dictionary \<open>citations\<close> after a sequence of calls of \<^verbatim>\<open>add_citation\<close> with
  keys that are already stripped: a key that is present keeps its position.
\<close>

fun note_first :: "(string \<times> rat) list \<Rightarrow> (rat \<times> string) list \<Rightarrow> (string \<times> rat) list" where
  "note_first cs [] = cs"
| "note_first cs ((p, k) # xs) =
     note_first (if k \<in> fst ` set cs then cs else cs @ [(k, p)]) xs"

lemma dropWhile_head_id:
  "xs = [] \<or> \<not> P (hd xs) \<Longrightarrow> dropWhile P xs = xs"
  by (cases xs) auto

lemma rev_dropWhile_rev_head:
  "xs = [] \<or> \<not> P (hd xs) \<Longrightarrow>
   rev (dropWhile P (rev xs)) = [] \<or> \<not> P (hd (rev (dropWhile P (rev xs))))"
  by (induction xs rule: rev_induct) (auto simp: hd_append split: if_splits)

lemma strip_head: "strip s = [] \<or> \<not> is_space (hd (strip s))"
  unfolding strip_def
  by (rule rev_dropWhile_rev_head) (metis hd_dropWhile)

lemma strip_last: "strip s = [] \<or> \<not> is_space (last (strip s))"
  unfolding strip_def
  by (metis hd_dropWhile last_rev rev_is_Nil_conv)

lemma strip_id:
  assumes "s = [] \<or> (\<not> is_space (hd s) \<and> \<not> is_space (last s))"
  shows "strip s = s"
proof (cases "s = []")
  case True
  then show ?thesis by (simp add: strip_def)
next
  case False
  with assms have h: "\<not> is_space (hd s)" and l: "\<not> is_space (last s)" by auto
  from h False have 1: "dropWhile is_space s = s" by (simp add: dropWhile_head_id)
  from l False have "\<not> is_space (hd (rev s))" by (simp add: hd_rev)
  then have 2: "dropWhile is_space (rev s) = rev s" by (simp add: dropWhile_head_id)
  show ?thesis by (simp add: strip_def 1 2)
qed

lemma strip_strip: "strip (strip s) = strip s"
  using strip_head [of s] strip_last [of s] by (intro strip_id) blast

lemma citations_add_citation:
  "citations (add_citation tr p k) = note_first (citations tr) [(p, strip k)]"
  by (simp add: add_citation_def Let_def)

lemma note_first_append:
  "note_first cs (xs @ ys) = note_first (note_first cs xs) ys"
  by (induction cs xs rule: note_first.induct) auto

lemma citations_add_group:
  "citations (add_group tr position i ks) =
     note_first (citations tr)
       (map (\<lambda>(j, k). (sort_position (position, j), strip k)) (enumerate i ks))"
proof (induction ks arbitrary: tr i)
  case Nil
  show ?case by simp
next
  case (Cons k ks)
  show ?case
    by (simp add: Cons.IH citations_add_citation sort_position_def)
qed

lemma split_on_no_sep: "c \<notin> set g \<Longrightarrow> split_on c g = [g]"
  by (induction g) auto

lemma length_split_on: "length (split_on c g) \<le> Suc (length g)"
  by (induction g) (auto split: list.splits)

lemma enumerate_map_snd:
  "enumerate i (map f xs) = map (\<lambda>(j, x). (j, f x)) (enumerate i xs)"
  by (induction xs arbitrary: i) auto

text \<open>The calls of \<^verbatim>\<open>add_citation\<close> that one match of the pattern causes.\<close>

definition marker_calls :: "nat \<times> string \<Rightarrow> (rat \<times> string) list" where
  "marker_calls m =
     (case m of (position, g) \<Rightarrow>
        map (\<lambda>(j, k). (sort_position (position, j), strip k))
            (enumerate 0 (split_on (CHR '','') g)))"

lemma citations_add_match:
  "citations (add_match tr m) = note_first (citations tr) (marker_calls m)"
proof -
  obtain position g where m: "m = (position, g)" by (cases m)
  show ?thesis
  proof (cases "CHR '','' \<in> set g")
    case True
    then show ?thesis
      by (simp add: m add_match_def marker_calls_def citations_add_group enumerate_map_snd
          strip_strip case_prod_unfold comp_def)
  next
    case False
    then show ?thesis
      by (simp add: m add_match_def marker_calls_def citations_add_citation split_on_no_sep
          strip_strip sort_position_def)
  qed
qed

lemma citations_foldl_add_match:
  "citations (foldl add_match tr ms) = note_first (citations tr) (concat (map marker_calls ms))"
  by (induction ms arbitrary: tr) (auto simp: citations_add_match note_first_append)

lemma calls_occurrences_list:
  "concat (map marker_calls ms) =
     map (\<lambda>(ix, k). (sort_position ix, k)) (concat (map marker_occurrences ms))"
  by (induction ms)
     (auto simp: marker_calls_def marker_occurrences_def comp_def case_prod_unfold)

lemma calls_occurrences:
  "concat (map marker_calls (cite_finditer 0 tex)) =
     map (\<lambda>(ix, k). (sort_position ix, k)) (occurrences tex)"
  unfolding occurrences_def by (rule calls_occurrences_list)

lemma citations_find_all:
  "citations (find_all_citations tex) =
     note_first [] (map (\<lambda>(ix, k). (sort_position ix, k)) (occurrences tex))"
  by (simp add: find_all_citations_def citations_foldl_add_match new_tracker_def
      calls_occurrences del: cite_finditer.simps)

lemma set_first_keys: "set (first_keys ks) = set ks"
  by (induction ks) auto

lemma distinct_first_keys: "distinct (first_keys ks)"
  by (induction ks) (auto simp: distinct_removeAll)

lemma first_keys_snoc:
  "first_keys (ks @ [k]) = (if k \<in> set ks then first_keys ks else first_keys ks @ [k])"
  by (induction ks) (auto simp: set_first_keys)

lemma keys_note_first: "map fst (note_first [] xs) = first_keys (map snd xs)"
proof (induction xs rule: rev_induct)
  case Nil
  show ?case by simp
next
  case (snoc x xs)
  obtain p k where x: "x = (p, k)" by (cases x)
  have "fst ` set (note_first [] xs) = set (map snd xs)"
    using snoc.IH set_first_keys by (metis set_map)
  then show ?case
    using snoc.IH by (simp add: x note_first_append first_keys_snoc)
qed

lemma positions_note_first:
  "sorted_wrt (<) (map fst xs) \<Longrightarrow>
   sorted_wrt (<) (map snd (note_first [] xs)) \<and> snd ` set (note_first [] xs) \<subseteq> fst ` set xs"
proof (induction xs rule: rev_induct)
  case Nil
  show ?case by simp
next
  case (snoc x xs)
  obtain p k where x: "x = (p, k)" by (cases x)
  from snoc.prems have s: "sorted_wrt (<) (map fst xs)" and lt: "\<forall>q \<in> fst ` set xs. q < p"
    by (auto simp: x sorted_wrt_append)
  from snoc.IH [OF s] have ih1: "sorted_wrt (<) (map snd (note_first [] xs))"
    and ih2: "snd ` set (note_first [] xs) \<subseteq> fst ` set xs" by auto
  from ih2 lt have "\<forall>q \<in> snd ` set (note_first [] xs). q < p" by blast
  with ih1 ih2 show ?case
    by (auto simp: x note_first_append sorted_wrt_append)
qed

lemma match_braced_len: "match_braced r = Some (g, k) \<Longrightarrow> length g < k"
  by (auto simp: match_braced_def Let_def split: list.splits if_splits)

lemma match_cite_len: "match_cite s = Some (g, n) \<Longrightarrow> length g < n"
  by (auto simp: match_cite_def Let_def split: if_splits option.splits dest!: match_braced_len)

lemma cite_finditer_lower:
  "(p, g) \<in> set (cite_finditer pos s) \<Longrightarrow> pos \<le> p"
proof (induction pos s arbitrary: p g rule: cite_finditer.induct)
  case (1 pos s)
  show ?case
  proof (cases "s = []")
    case True
    with "1.prems" show ?thesis by (subst (asm) cite_finditer.simps) simp
  next
    case False
    show ?thesis
    proof (cases "match_cite s")
      case None
      with False "1.prems" have "(p, g) \<in> set (cite_finditer (Suc pos) (tl s))"
        by (subst (asm) cite_finditer.simps) simp
      with "1.IH"(1) [OF False None] have "Suc pos \<le> p" by blast
      then show ?thesis by simp
    next
      case (Some m)
      obtain g0 n where m: "m = (g0, n)" by (cases m)
      from False Some m "1.prems"
      have "(p, g) = (pos, g0) \<or> (p, g) \<in> set (cite_finditer (pos + n) (drop n s))"
        by (subst (asm) cite_finditer.simps) simp
      then show ?thesis
      proof
        assume "(p, g) = (pos, g0)"
        then show ?thesis by simp
      next
        assume "(p, g) \<in> set (cite_finditer (pos + n) (drop n s))"
        with "1.IH"(2) [OF False Some m [symmetric]] have "pos + n \<le> p" by blast
        then show ?thesis by simp
      qed
    qed
  qed
qed

lemma cite_finditer_gap:
  "sorted_wrt (\<lambda>a b. fst a + length (snd a) < fst b) (cite_finditer pos s)"
proof (induction pos s rule: cite_finditer.induct)
  case (1 pos s)
  show ?case
  proof (cases "s = []")
    case True
    then show ?thesis by (subst cite_finditer.simps) simp
  next
    case False
    show ?thesis
    proof (cases "match_cite s")
      case None
      have "cite_finditer pos s = cite_finditer (Suc pos) (tl s)"
        using False None by (subst cite_finditer.simps) simp
      with "1.IH"(1) [OF False None] show ?thesis by (simp only:)
    next
      case (Some m)
      obtain g0 n where m: "m = (g0, n)" by (cases m)
      have len: "length g0 < n" using Some m by (auto dest: match_cite_len)
      have rest: "sorted_wrt (\<lambda>a b. fst a + length (snd a) < fst b)
                    (cite_finditer (pos + n) (drop n s))"
        by (rule "1.IH"(2) [OF False Some m [symmetric]])
      have "\<forall>b \<in> set (cite_finditer (pos + n) (drop n s)). pos + length g0 < fst b"
      proof
        fix b assume b: "b \<in> set (cite_finditer (pos + n) (drop n s))"
        obtain p g where "b = (p, g)" by (cases b)
        with b cite_finditer_lower have "pos + n \<le> p" by blast
        with len \<open>b = (p, g)\<close> show "pos + length g0 < fst b" by simp
      qed
      with rest have "sorted_wrt (\<lambda>a b. fst a + length (snd a) < fst b)
                    ((pos, g0) # cite_finditer (pos + n) (drop n s))"
        by simp
      moreover have "cite_finditer pos s = (pos, g0) # cite_finditer (pos + n) (drop n s)"
        using False Some m by (subst cite_finditer.simps) simp
      ultimately show ?thesis by (simp only:)
    qed
  qed
qed

text \<open>
  Two indices of occurrences in scan order: the same marker and a larger sub-index, or a
  later marker, which starts after the whole key group of the earlier one.
\<close>

definition index_before :: "nat \<times> nat \<Rightarrow> nat \<times> nat \<Rightarrow> bool" where
  "index_before a b = ((fst a = fst b \<and> snd a < snd b) \<or> fst a + snd a < fst b)"

lemma index_before_less: "index_before a b \<Longrightarrow> a < b"
  by (cases a; cases b) (auto simp: index_before_def)

lemma index_before_position: "index_before a b \<Longrightarrow> sort_position a < sort_position b"
proof -
  assume "index_before a b"
  then consider "fst a = fst b" "snd a < snd b" | "fst a + snd a < fst b"
    by (auto simp: index_before_def)
  then show ?thesis
  proof cases
    case 1
    then show ?thesis by (simp add: sort_position_def)
  next
    case 2
    have "(of_nat (snd a) :: rat) * (1 / 1000) \<le> of_nat (snd a)" by simp
    then have "sort_position a \<le> of_nat (fst a + snd a)"
      by (simp add: sort_position_def)
    also have "\<dots> < of_nat (fst b)" using 2 by (simp only: of_nat_less_iff)
    also have "\<dots> \<le> sort_position b" by (simp add: sort_position_def)
    finally show ?thesis .
  qed
qed

lemma enumerate_index:
  "map fst (map (\<lambda>(i, k). ((p, i), f k)) (enumerate n xs)) = map (\<lambda>i. (p, i)) [n ..< n + length xs]"
proof (induction xs arbitrary: n)
  case Nil
  show ?case by simp
next
  case (Cons x xs)
  have "[n ..< n + length (x # xs)] = n # [Suc n ..< Suc n + length xs]"
    by (simp add: upt_rec)
  with Cons.IH [of "Suc n"] show ?case by simp
qed

lemma marker_occurrences_index:
  "map fst (marker_occurrences (p, g)) = map (\<lambda>i. (p, i)) [0 ..< length (split_on (CHR '','') g)]"
  unfolding marker_occurrences_def prod.case
  using enumerate_index [of p strip 0 "split_on (CHR '','') g"] by simp

lemma marker_occurrences_sorted:
  "sorted_wrt index_before (map fst (marker_occurrences (p, g)))"
  unfolding marker_occurrences_index
  by (simp add: sorted_wrt_map index_before_def sorted_wrt_iff_nth_less)

lemma marker_occurrences_bound:
  assumes "x \<in> set (marker_occurrences (p, g))"
  shows "fst (fst x) = p \<and> snd (fst x) \<le> length g"
proof -
  from assms have "fst x \<in> set (map fst (marker_occurrences (p, g)))" by simp
  then obtain i where "fst x = (p, i)" "i < length (split_on (CHR '','') g)"
    unfolding marker_occurrences_index by auto
  with length_split_on [of "CHR '',''" g] show ?thesis by simp
qed

lemma occurrences_sorted_list:
  "sorted_wrt (\<lambda>a b. fst a + length (snd a) < fst b) ms \<Longrightarrow>
   sorted_wrt index_before (map fst (concat (map marker_occurrences ms)))"
proof (induction ms)
  case Nil
  show ?case by simp
next
  case (Cons m ms)
  obtain p g where m: "m = (p, g)" by (cases m)
  from Cons.prems have rest: "sorted_wrt (\<lambda>a b. fst a + length (snd a) < fst b) ms"
    and gap: "\<forall>b \<in> set ms. p + length g < fst b"
    by (auto simp: m)
  have cross: "index_before (fst x) (fst y)"
    if x: "x \<in> set (marker_occurrences (p, g))"
      and y: "y \<in> set (concat (map marker_occurrences ms))" for x y
  proof -
    from y obtain b where b: "b \<in> set ms" "y \<in> set (marker_occurrences b)" by auto
    obtain p' g' where b': "b = (p', g')" by (cases b)
    from b b' marker_occurrences_bound have "fst (fst y) = p'" by blast
    moreover from gap b b' have "p + length g < p'" by auto
    moreover from x marker_occurrences_bound have "fst (fst x) = p \<and> snd (fst x) \<le> length g"
      by blast
    ultimately show ?thesis by (simp add: index_before_def)
  qed
  have "\<forall>a \<in> set (map fst (marker_occurrences (p, g))).
          \<forall>b \<in> set (map fst (concat (map marker_occurrences ms))). index_before a b"
    using cross by (simp only: set_map) blast
  with Cons.IH [OF rest] marker_occurrences_sorted [of p g]
  have "sorted_wrt index_before
          (map fst (marker_occurrences (p, g)) @ map fst (concat (map marker_occurrences ms)))"
    by (simp only: sorted_wrt_append simp_thms)
  then show ?case by (simp add: m)
qed

lemma occurrences_index_before: "sorted_wrt index_before (map fst (occurrences tex))"
  unfolding occurrences_def
  by (rule occurrences_sorted_list) (rule cite_finditer_gap)

lemma occurrences_sorted: "sorted_wrt (<) (map fst (occurrences tex))"
  using occurrences_index_before [of tex]
  by (rule sorted_wrt_mono_rel [rotated]) (rule index_before_less)

lemma occurrence_positions_sorted:
  "sorted_wrt (<) (map fst (map (\<lambda>(ix, k). (sort_position ix, k)) (occurrences tex)))"
proof -
  have "sorted_wrt (\<lambda>a b. sort_position a < sort_position b) (map fst (occurrences tex))"
    using occurrences_index_before [of tex]
    by (rule sorted_wrt_mono_rel [rotated]) (rule index_before_position)
  then have "sorted_wrt (<) (map sort_position (map fst (occurrences tex)))"
    by (simp only: sorted_wrt_map)
  moreover have "map fst (map (\<lambda>(ix, k). (sort_position ix, k)) (occurrences tex)) =
                 map sort_position (map fst (occurrences tex))"
    by (simp add: comp_def case_prod_unfold)
  ultimately show ?thesis by (simp only:)
qed

lemma ordered_citations_first_keys:
  "get_ordered_citations (find_all_citations tex) = first_keys (map snd (occurrences tex))"
proof -
  let ?calls = "map (\<lambda>(ix, k). (sort_position ix, k)) (occurrences tex)"
  have "sorted_wrt (<) (map snd (note_first [] ?calls))"
    using positions_note_first [OF occurrence_positions_sorted] by blast
  then have "sorted (map snd (note_first [] ?calls))"
    by (rule strict_sorted_imp_sorted)
  then have "sort_key snd (note_first [] ?calls) = note_first [] ?calls"
    by (rule sort_key_id_if_sorted)
  then have "get_ordered_citations (find_all_citations tex) = map fst (note_first [] ?calls)"
    by (simp only: get_ordered_citations_def citations_find_all)
  also have "\<dots> = first_keys (map snd ?calls)" by (rule keys_note_first)
  also have "map snd ?calls = map snd (occurrences tex)"
    by (simp add: comp_def case_prod_unfold)
  finally show ?thesis .
qed

lemma first_index_mem:
  "k \<in> snd ` set occ \<Longrightarrow> (first_index occ k, k) \<in> set occ"
proof -
  assume "k \<in> snd ` set occ"
  then have ne: "filter (\<lambda>x. snd x = k) occ \<noteq> []"
    by (auto simp: filter_empty_conv)
  then have "hd (filter (\<lambda>x. snd x = k) occ) \<in> set (filter (\<lambda>x. snd x = k) occ)"
    by (rule hd_in_set)
  then have "hd (filter (\<lambda>x. snd x = k) occ) \<in> set occ \<and> snd (hd (filter (\<lambda>x. snd x = k) occ)) = k"
    by simp
  then show ?thesis
    unfolding first_index_def by (metis prod.collapse)
qed

lemma first_index_least:
  "sorted_wrt (<) (map fst occ) \<Longrightarrow> x \<in> set occ \<Longrightarrow> first_index occ (snd x) \<le> fst x"
proof (induction occ)
  case Nil
  then show ?case by simp
next
  case (Cons y occ)
  show ?case
  proof (cases "snd y = snd x")
    case True
    then have "first_index (y # occ) (snd x) = fst y" by (simp add: first_index_def)
    moreover from Cons.prems have "fst y \<le> fst x" by auto
    ultimately show ?thesis by simp
  next
    case False
    then have "first_index (y # occ) (snd x) = first_index occ (snd x)"
      by (simp add: first_index_def)
    moreover from False Cons.prems have "x \<in> set occ" by auto
    moreover from Cons.prems have "sorted_wrt (<) (map fst occ)" by simp
    ultimately show ?thesis using Cons.IH by simp
  qed
qed

lemma first_keys_sorted:
  "sorted_wrt (<) (map fst occ) \<Longrightarrow>
   sorted_wrt (<) (map (first_index occ) (first_keys (map snd occ)))"
proof (induction occ)
  case Nil
  show ?case by simp
next
  case (Cons y occ)
  obtain ix k where y: "y = (ix, k)" by (cases y)
  let ?FK = "first_keys (map snd occ)"
  from Cons.prems have s: "sorted_wrt (<) (map fst occ)" and lt: "\<forall>j \<in> fst ` set occ. ix < j"
    by (auto simp: y)
  have same: "first_index (y # occ) k' = first_index occ k'" if "k' \<noteq> k" for k'
    using that by (simp add: first_index_def y)
  have "sorted_wrt (\<lambda>a b. first_index occ a < first_index occ b) ?FK"
    using Cons.IH [OF s] by (simp only: sorted_wrt_map)
  then have "sorted_wrt (\<lambda>a b. first_index occ a < first_index occ b) (removeAll k ?FK)"
    by (simp only: removeAll_filter_not_eq sorted_wrt_filter)
  then have 1: "sorted_wrt (<) (map (first_index occ) (removeAll k ?FK))"
    by (simp only: sorted_wrt_map)
  have 2: "map (first_index (y # occ)) (removeAll k ?FK) = map (first_index occ) (removeAll k ?FK)"
    by (rule map_cong) (auto simp: same)
  have 3: "ix < first_index occ k'" if "k' \<in> set (removeAll k ?FK)" for k'
  proof -
    from that have "k' \<in> snd ` set occ" by (simp add: set_first_keys)
    then have "(first_index occ k', k') \<in> set occ" by (rule first_index_mem)
    then have "first_index occ k' \<in> fst ` set occ" by force
    with lt show ?thesis by blast
  qed
  have 4: "first_index (y # occ) k = ix" by (simp add: first_index_def y)
  have "map (first_index (y # occ)) (first_keys (map snd (y # occ))) =
          ix # map (first_index occ) (removeAll k ?FK)"
    using 2 4 by (simp add: y)
  moreover have "sorted_wrt (<) (ix # map (first_index occ) (removeAll k ?FK))"
    using 1 3 by auto
  ultimately show ?case by (simp only:)
qed

text \<open>A text with three markers: a group, a marker with a modifier, and a group with a blank.\<close>

definition cite_doc :: string where
  "cite_doc = CITE @ ''{b,a} and '' @ CITE @ ''[p. 2]{a}, '' @ CITE @ ''{c, b}''"

text \<open>
  Claim C4. The indices (marker position, sub-index) of the occurrences are strictly
  increasing in scan order, so no two occurrences tie. The resolved citation order is the
  list of the cited keys in the order of their first occurrence: it has every cited key
  exactly once and no other key, and the indices of the first occurrences of its keys
  are strictly increasing in the lexicographic order on pairs. The first occurrence of a
  key is an occurrence of that key, and no occurrence of the key has a smaller index.
  Positions are exact numbers here: the offset \<^verbatim>\<open>i * 0.001\<close> is the rational \<open>i/1000\<close>.
\<close>

theorem citation_order_by_first_occurrence:
  "sorted_wrt (<) (map fst (occurrences tex)) \<and>
   get_ordered_citations (find_all_citations tex) = first_keys (map snd (occurrences tex)) \<and>
   distinct (get_ordered_citations (find_all_citations tex)) \<and>
   set (get_ordered_citations (find_all_citations tex)) = snd ` set (occurrences tex) \<and>
   sorted_wrt (<) (map (first_index (occurrences tex))
                       (get_ordered_citations (find_all_citations tex))) \<and>
   (\<forall>x \<in> set (occurrences tex).
      (first_index (occurrences tex) (snd x), snd x) \<in> set (occurrences tex) \<and>
      first_index (occurrences tex) (snd x) \<le> fst x)"
proof -
  have 1: "sorted_wrt (<) (map fst (occurrences tex))" by (rule occurrences_sorted)
  have 2: "get_ordered_citations (find_all_citations tex) = first_keys (map snd (occurrences tex))"
    by (rule ordered_citations_first_keys)
  have 3: "distinct (get_ordered_citations (find_all_citations tex))"
    unfolding 2 by (rule distinct_first_keys)
  have 4: "set (get_ordered_citations (find_all_citations tex)) = snd ` set (occurrences tex)"
    unfolding 2 by (simp add: set_first_keys)
  have 5: "sorted_wrt (<) (map (first_index (occurrences tex))
                       (get_ordered_citations (find_all_citations tex)))"
    unfolding 2 using 1 by (rule first_keys_sorted)
  have 6: "\<forall>x \<in> set (occurrences tex).
      (first_index (occurrences tex) (snd x), snd x) \<in> set (occurrences tex) \<and>
      first_index (occurrences tex) (snd x) \<le> fst x"
    using 1 by (auto intro: first_index_mem first_index_least)
  from 1 2 3 4 5 6 show ?thesis by (intro conjI)
qed

text \<open>The theorem at a text that cites \<open>b, a\<close>, then \<open>a\<close> again, then \<open>c, b\<close>.\<close>

theorem citation_order_by_first_occurrence_witness:
  "get_ordered_citations (find_all_citations cite_doc) = [''b'', ''a'', ''c''] \<and>
   sorted_wrt (<) (map (first_index (occurrences cite_doc)) [''b'', ''a'', ''c'']) \<and>
   first_index (occurrences cite_doc) ''a'' \<le> (15, 0)"
proof -
  have 1: "first_keys (map snd (occurrences cite_doc)) = [''b'', ''a'', ''c'']"
    by code_simp
  have 2: "((15, 0), ''a'') \<in> set (occurrences cite_doc)"
    by code_simp
  from citation_order_by_first_occurrence [of cite_doc] 1 2 show ?thesis
    by fastforce
qed

lemma citation_positions_add_citation:
  "citation_positions (add_citation tr p k) = citation_positions tr @ [(p, strip k)]"
  by (simp add: add_citation_def Let_def)

lemma citation_positions_add_group:
  "citation_positions (add_group tr position i ks) =
     citation_positions tr
     @ map (\<lambda>(j, k). (sort_position (position, j), strip k)) (enumerate i ks)"
proof (induction ks arbitrary: tr i)
  case Nil
  show ?case by simp
next
  case (Cons k ks)
  show ?case
    by (simp add: Cons.IH citation_positions_add_citation sort_position_def)
qed

lemma citation_positions_add_match:
  "citation_positions (add_match tr m) = citation_positions tr @ marker_calls m"
proof -
  obtain position g where m: "m = (position, g)" by (cases m)
  show ?thesis
  proof (cases "CHR '','' \<in> set g")
    case True
    then show ?thesis
      by (simp add: m add_match_def marker_calls_def citation_positions_add_group
          enumerate_map_snd strip_strip case_prod_unfold comp_def)
  next
    case False
    then show ?thesis
      by (simp add: m add_match_def marker_calls_def citation_positions_add_citation
          split_on_no_sep strip_strip sort_position_def)
  qed
qed

lemma citation_positions_foldl_add_match:
  "citation_positions (foldl add_match tr ms) =
     citation_positions tr @ concat (map marker_calls ms)"
  by (induction ms arbitrary: tr) (auto simp: citation_positions_add_match)

lemma citation_positions_find_all:
  "citation_positions (find_all_citations tex) =
     map (\<lambda>(ix, k). (sort_position ix, k)) (occurrences tex)"
  by (simp add: find_all_citations_def citation_positions_foldl_add_match new_tracker_def
      calls_occurrences del: cite_finditer.simps)

lemma marker_occurrence_nth:
  assumes "i < length (split_on (CHR '','') g)"
  shows "((position, i), strip (split_on (CHR '','') g ! i)) \<in> set (marker_occurrences (position, g))"
proof -
  from assms have "enumerate 0 (split_on (CHR '','') g) ! i = (i, split_on (CHR '','') g ! i)"
    by (simp add: nth_enumerate_eq)
  moreover from assms have "i < length (enumerate 0 (split_on (CHR '','') g))" by simp
  ultimately have "(i, split_on (CHR '','') g ! i) \<in> set (enumerate 0 (split_on (CHR '','') g))"
    by (metis nth_mem)
  then have "(\<lambda>(i, k). ((position, i), strip k)) (i, split_on (CHR '','') g ! i)
               \<in> (\<lambda>(i, k). ((position, i), strip k)) ` set (enumerate 0 (split_on (CHR '','') g))"
    by (rule imageI)
  then show ?thesis by (simp add: marker_occurrences_def)
qed

lemma warning_printed:
  assumes "be \<noteq> []" and "i < length co" and "co ! i \<notin> fst ` set be"
  shows "NoEntryWarning (Suc i) (co ! i) \<in> set (fst (create_reordered_bibliography co be ol))"
proof -
  have "zip [1 ..< 1 + length co] co ! i = (Suc i, co ! i)"
    using assms(2) by (simp del: upt_Suc)
  moreover have "i < length (zip [1 ..< 1 + length co] co)"
    using assms(2) by simp
  ultimately have "(Suc i, co ! i) \<in> set (zip [1 ..< 1 + length co] co)"
    by (metis nth_mem)
  then have "cited_diag be (Suc i, co ! i) \<in> set (map (cited_diag be) (zip [1 ..< 1 + length co] co))"
    unfolding set_map by (rule imageI)
  then show ?thesis
    using assms(1,3) by (simp add: create_printed cited_diag_def)
qed

text \<open>A marker whose second component is empty.\<close>

definition empty_key_doc :: string where
  "empty_key_doc = CITE @ ''{a,,b}''"

text \<open>
  Claim C10. When a component of the key group of a marker is empty after stripping,
  the scanner records an occurrence with the empty key under the index of that
  component, and \<^verbatim>\<open>add_citation\<close> is called with the empty key. The empty key is in
  the resolved citation order, placed by its first occurrence, which is not after this
  one. The reconciler treats it as any key: with an entry for the empty key it is among
  the matched keys of the block, and without one, in a mapping that is not empty, the
  missing entry is reported.
\<close>

theorem empty_key_participates:
  assumes "(position, g) \<in> set (cite_finditer 0 tex)"
    and "i < length (split_on (CHR '','') g)"
    and "strip (split_on (CHR '','') g ! i) = []"
  shows "((position, i), []) \<in> set (occurrences tex) \<and>
         (of_nat position + of_nat i * (1 / 1000), []) \<in> set (citation_positions (find_all_citations tex)) \<and>
         [] \<in> set (get_ordered_citations (find_all_citations tex)) \<and>
         first_index (occurrences tex) [] \<le> (position, i) \<and>
         (be \<noteq> [] \<and> [] \<in> fst ` set be \<longrightarrow>
            [] \<in> set (matched_keys (get_ordered_citations (find_all_citations tex)) be) \<and>
            snd (create_reordered_bibliography (get_ordered_citations (find_all_citations tex)) be ol) =
              Some (serialize ol (map (entry_text be)
                (reconciled_keys (get_ordered_citations (find_all_citations tex)) be)))) \<and>
         (be \<noteq> [] \<and> [] \<notin> fst ` set be \<longrightarrow>
            (\<exists>n. NoEntryWarning n [] \<in> set (fst (create_reordered_bibliography
                      (get_ordered_citations (find_all_citations tex)) be ol))))"
proof -
  let ?co = "get_ordered_citations (find_all_citations tex)"
  have "((position, i), strip (split_on (CHR '','') g ! i)) \<in> set (marker_occurrences (position, g))"
    using assms(2) by (rule marker_occurrence_nth)
  with assms(1,3) have 1: "((position, i), []) \<in> set (occurrences tex)"
    unfolding occurrences_def by (simp only: set_concat set_map) blast
  then have "(\<lambda>(ix, k). (sort_position ix, k)) ((position, i), [])
               \<in> (\<lambda>(ix, k). (sort_position ix, k)) ` set (occurrences tex)"
    by (rule imageI)
  then have 2: "(of_nat position + of_nat i * (1 / 1000), [])
                  \<in> set (citation_positions (find_all_citations tex))"
    by (simp add: citation_positions_find_all sort_position_def)
  from 1 have "[] \<in> snd ` set (occurrences tex)" by force
  then have 3: "[] \<in> set ?co"
    by (simp add: ordered_citations_first_keys set_first_keys)
  have 4: "first_index (occurrences tex) [] \<le> (position, i)"
    using first_index_least [OF occurrences_sorted 1] by simp
  have 5: "be \<noteq> [] \<and> [] \<in> fst ` set be \<longrightarrow>
            [] \<in> set (matched_keys ?co be) \<and>
            snd (create_reordered_bibliography ?co be ol) =
              Some (serialize ol (map (entry_text be) (reconciled_keys ?co be)))"
    using 3 by (simp add: matched_keys_def create_block)
  have 6: "be \<noteq> [] \<and> [] \<notin> fst ` set be \<longrightarrow>
            (\<exists>n. NoEntryWarning n [] \<in> set (fst (create_reordered_bibliography ?co be ol)))"
  proof
    assume a: "be \<noteq> [] \<and> [] \<notin> fst ` set be"
    from 3 obtain j where j: "j < length ?co" "?co ! j = []"
      by (auto simp: in_set_conv_nth)
    with a warning_printed [of be j ?co ol]
    show "\<exists>n. NoEntryWarning n [] \<in> set (fst (create_reordered_bibliography ?co be ol))"
      by auto
  qed
  from 1 2 3 4 5 6 show ?thesis by (intro conjI)
qed

text \<open>The theorem at the marker \<^verbatim>\<open>\cite{a,,b}\<close> and its component 1.\<close>

theorem empty_key_participates_witness:
  "((0, 1), []) \<in> set (occurrences empty_key_doc) \<and>
   (1 / 1000, []) \<in> set (citation_positions (find_all_citations empty_key_doc)) \<and>
   [] \<in> set (get_ordered_citations (find_all_citations empty_key_doc)) \<and>
   [] \<in> set (matched_keys (get_ordered_citations (find_all_citations empty_key_doc))
                [([], ''E''), (''a'', ''A'')])"
proof -
  have 1: "(0, ''a,,b'') \<in> set (cite_finditer 0 empty_key_doc)" by code_simp
  have 2: "1 < length (split_on (CHR '','') ''a,,b'')" by code_simp
  have 3: "strip (split_on (CHR '','') ''a,,b'' ! 1) = []" by code_simp
  from empty_key_participates [OF 1 2 3, of "[([], ''E''), (''a'', ''A'')]" BEGIN_BIB]
  show ?thesis by simp
qed

section \<open>The keys of the parsed mapping\<close>

text \<open>
  The entry keys of a bibliography block as the parser reads them: one key for each match
  of the entry pattern, stripped, in the order of the block.
\<close>

definition block_keys :: "string \<Rightarrow> string list" where
  "block_keys bib_section = map (\<lambda>m. strip (fst m)) (bibitem_finditer bib_section)"

text \<open>A document whose bibliography has two entries with the same key.\<close>

definition dup_key_doc :: string where
  "dup_key_doc = CITE @ ''{a}'' @ BEGIN_BIB @ ''{9}'' @ [NL] @ BIBITEM @ ''a} X'' @ [NL]
     @ BIBITEM @ ''a} Y'' @ [NL] @ END_BIB"

lemma keys_store_entry:
  "map fst (store_entry entries m) =
     (if strip (fst m) \<in> set (map fst entries) then map fst entries
      else map fst entries @ [strip (fst m)])"
  by (cases m) (simp add: store_entry_def update_keys)

lemma keys_foldl_store_entry:
  "map fst (foldl store_entry [] ms) = first_keys (map (\<lambda>m. strip (fst m)) ms)"
proof (induction ms rule: rev_induct)
  case Nil
  show ?case by simp
next
  case (snoc m ms)
  have "set (map fst (foldl store_entry [] ms)) = set (map (\<lambda>m. strip (fst m)) ms)"
    by (simp only: snoc.IH set_first_keys)
  then show ?case
    using snoc.IH by (simp add: keys_store_entry first_keys_snoc del: set_map)
qed

lemma extract_keys:
  assumes "extract_bibliography_entries content = Some (be, (bs, es), ol)"
  shows "map fst be = first_keys (block_keys (slice content bs es))"
proof -
  from assms have "be = foldl store_entry [] (bibitem_finditer (slice content bs es))"
    by (auto simp: extract_bibliography_entries_def Let_def split: option.splits
             simp del: bibitem_finditer.simps)
  then show ?thesis
    by (simp only: keys_foldl_store_entry block_keys_def)
qed

lemma first_keys_distinct_id: "distinct ks \<Longrightarrow> first_keys ks = ks"
  by (induction ks) auto


section \<open>Normalisation of the entry bodies\<close>

text \<open>
  A line is blank when it is empty or has whitespace only. The lines of a text are its
  parts between the newlines; \<open>drop_blank_lines\<close> keeps the lines that are not blank, in
  their order and as they are.
\<close>

definition blank_line :: "string \<Rightarrow> bool" where
  "blank_line l = list_all is_space l"

definition drop_blank_lines :: "string \<Rightarrow> string" where
  "drop_blank_lines s = join [NL] (filter (\<lambda>l. \<not> blank_line l) (split_on NL s))"

lemma is_space_NL: "is_space NL"
  by (simp add: is_space_def NL_def)

lemma sub_blank_Nil: "sub_blank [] = []"
  by (subst sub_blank.simps) simp

lemma sub_blank_None: "match_blank (c # cs) = None \<Longrightarrow> sub_blank (c # cs) = c # sub_blank cs"
  by (subst sub_blank.simps) (simp del: sub_blank.simps)

lemma sub_blank_Some: "match_blank s = Some n \<Longrightarrow> sub_blank s = NL # sub_blank (drop n s)"
  by (subst sub_blank.simps) (auto simp: match_blank_def simp del: sub_blank.simps)

lemma match_blank_other: "c \<noteq> NL \<Longrightarrow> match_blank (c # t) = None"
  by (simp add: match_blank_def)

lemma match_blank_NL:
  "match_blank (NL # t) =
     (if NL \<in> set (takeWhile is_space t)
      then Some (1 + (length (takeWhile is_space t)
                      - length (takeWhile (\<lambda>x. x \<noteq> NL) (rev (takeWhile is_space t)))))
      else None)"
  by (simp add: match_blank_def Let_def)

lemma sub_blank_copy: "NL \<notin> set l \<Longrightarrow> sub_blank (l @ t) = l @ sub_blank t"
proof (induction l)
  case Nil
  show ?case by simp
next
  case (Cons c l)
  then have "c \<noteq> NL" and "NL \<notin> set l" by auto
  then show ?case
    using Cons.IH by (simp add: sub_blank_None match_blank_other del: sub_blank.simps)
qed

lemma match_blank_text_line:
  assumes "\<not> blank_line l" and "NL \<notin> set l"
  shows "match_blank (NL # l @ t) = None"
proof -
  from assms(1) obtain x where x: "x \<in> set l" "\<not> is_space x"
    by (auto simp: blank_line_def list_all_iff)
  then have "takeWhile is_space (l @ t) = takeWhile is_space l"
    by (rule takeWhile_append1)
  moreover have "set (takeWhile is_space l) \<subseteq> set l"
    by (auto dest: set_takeWhileD)
  ultimately have "NL \<notin> set (takeWhile is_space (l @ t))"
    using assms(2) by auto
  then show ?thesis by (simp add: match_blank_NL)
qed

lemma drop_before_last:
  "drop (length xs - length (takeWhile P (rev xs))) xs = rev (takeWhile P (rev xs))"
proof -
  have "rev xs = takeWhile P (rev xs) @ dropWhile P (rev xs)" by simp
  then have "xs = rev (dropWhile P (rev xs)) @ rev (takeWhile P (rev xs))"
    by (metis rev_append rev_rev_ident)
  moreover have "length (rev (dropWhile P (rev xs))) = length xs - length (takeWhile P (rev xs))"
    by (simp add: length_dropWhile_le) (metis add_diff_cancel_left' length_append length_rev takeWhile_dropWhile_id)
  ultimately show ?thesis
    by (metis append_eq_conv_conj)
qed

lemma sub_blank_blank_line:
  assumes "blank_line l" and "NL \<notin> set l"
  shows "sub_blank (NL # l @ NL # rest) = sub_blank (NL # rest)"
proof -
  let ?run' = "takeWhile is_space rest"
  let ?run = "takeWhile is_space (l @ NL # rest)"
  let ?k = "length (takeWhile (\<lambda>x. x \<noteq> NL) (rev ?run'))"
  from assms(1) have all: "\<forall>x \<in> set l. is_space x"
    by (simp add: blank_line_def list_all_iff)
  then have run: "?run = l @ NL # ?run'"
    by (simp add: takeWhile_append2 is_space_NL)
  then have mem: "NL \<in> set ?run" by simp
  have m1: "match_blank (NL # l @ NL # rest) =
          Some (1 + (length ?run - length (takeWhile (\<lambda>x. x \<noteq> NL) (rev ?run))))"
    using mem by (simp only: match_blank_NL if_True)
  have rv: "rev ?run = rev ?run' @ NL # rev l"
    by (simp add: run)
  show ?thesis
  proof (cases "NL \<in> set ?run'")
    case True
    then have "takeWhile (\<lambda>x. x \<noteq> NL) (rev ?run) = takeWhile (\<lambda>x. x \<noteq> NL) (rev ?run')"
      unfolding rv by (intro takeWhile_append1 [of NL]) auto
    then have k: "length (takeWhile (\<lambda>x. x \<noteq> NL) (rev ?run)) = ?k" by simp
    have kle: "?k \<le> length ?run'"
      by (metis length_rev length_takeWhile_le)
    have "length ?run - ?k = length l + 1 + (length ?run' - ?k)"
      using kle by (simp add: run)
    then have "drop (1 + (length ?run - ?k)) (NL # l @ NL # rest) = drop (length ?run' - ?k) rest"
      by simp
    then have l: "sub_blank (NL # l @ NL # rest) = NL # sub_blank (drop (length ?run' - ?k) rest)"
      using m1 k by (simp add: sub_blank_Some del: sub_blank.simps)
    have "match_blank (NL # rest) = Some (1 + (length ?run' - ?k))"
      using True by (simp only: match_blank_NL if_True)
    then have "sub_blank (NL # rest) = NL # sub_blank (drop (length ?run' - ?k) rest)"
      by (simp add: sub_blank_Some del: sub_blank.simps)
    with l show ?thesis by (simp only:)
  next
    case False
    then have "\<And>x. x \<in> set (rev ?run') \<Longrightarrow> x \<noteq> NL" by auto
    then have "takeWhile (\<lambda>x. x \<noteq> NL) (rev ?run' @ NL # rev l) =
                 rev ?run' @ takeWhile (\<lambda>x. x \<noteq> NL) (NL # rev l)"
      by (rule takeWhile_append2)
    then have "takeWhile (\<lambda>x. x \<noteq> NL) (rev ?run) = rev ?run'"
      unfolding rv by simp
    then have "length ?run - length (takeWhile (\<lambda>x. x \<noteq> NL) (rev ?run)) = length l + 1"
      by (simp add: run)
    then have "drop (1 + (length ?run - length (takeWhile (\<lambda>x. x \<noteq> NL) (rev ?run))))
                 (NL # l @ NL # rest) = rest"
      by simp
    then have l: "sub_blank (NL # l @ NL # rest) = NL # sub_blank rest"
      using m1 by (simp add: sub_blank_Some del: sub_blank.simps)
    have "match_blank (NL # rest) = None"
      using False by (simp only: match_blank_NL if_False)
    then have "sub_blank (NL # rest) = NL # sub_blank rest"
      by (rule sub_blank_None)
    with l show ?thesis by (simp only:)
  qed
qed

lemma split_on_not_Nil: "split_on c s \<noteq> []"
  by (induction s) (auto split: list.splits)

lemma join_Cons_Cons: "join sep ((x # p) # ps) = x # join sep (p # ps)"
  by (cases ps) auto

lemma join_Nil_Cons: "join sep ([] # p # ps) = sep @ join sep (p # ps)"
  by simp

lemma join_split_on: "join [c] (split_on c s) = s"
proof (induction s)
  case Nil
  show ?case by simp
next
  case (Cons x s)
  obtain p ps where ps: "split_on c s = p # ps"
    using split_on_not_Nil [of c s] by (cases "split_on c s") auto
  show ?case
  proof (cases "x = c")
    case True
    with Cons.IH ps show ?thesis by simp
  next
    case False
    have "split_on c (x # s) = (x # p) # ps" using False ps by simp
    then have "join [c] (split_on c (x # s)) = x # join [c] (p # ps)"
      by (simp only: join_Cons_Cons)
    with Cons.IH ps show ?thesis by simp
  qed
qed

lemma split_on_lines: "l \<in> set (split_on c s) \<Longrightarrow> c \<notin> set l"
proof (induction s arbitrary: l)
  case Nil
  then show ?case by simp
next
  case (Cons x s)
  obtain p ps where ps: "split_on c s = p # ps"
    using split_on_not_Nil [of c s] by (cases "split_on c s") auto
  with Cons show ?case by (auto split: if_splits)
qed

lemma split_on_hd: "s \<noteq> [] \<Longrightarrow> hd s \<noteq> c \<Longrightarrow> hd s \<in> set (hd (split_on c s))"
proof (cases s)
  case Nil
  assume "s \<noteq> []"
  with Nil show ?thesis by simp
next
  case (Cons x xs)
  assume "hd s \<noteq> c"
  obtain p ps where ps: "split_on c xs = p # ps"
    using split_on_not_Nil [of c xs] by (cases "split_on c xs") auto
  with Cons \<open>hd s \<noteq> c\<close> show ?thesis by simp
qed

lemma split_on_last: "s \<noteq> [] \<Longrightarrow> last s \<noteq> c \<Longrightarrow> last s \<in> set (last (split_on c s))"
proof (induction s)
  case Nil
  then show ?case by simp
next
  case (Cons x s)
  obtain p ps where ps: "split_on c s = p # ps"
    using split_on_not_Nil [of c s] by (cases "split_on c s") auto
  show ?case
  proof (cases "s = []")
    case True
    with Cons.prems show ?thesis by simp
  next
    case False
    with Cons.prems have "last s \<noteq> c" by simp
    from Cons.IH [OF False this] have "last s \<in> set (last (p # ps))" by (simp only: ps)
    with False ps show ?thesis by (cases ps) auto
  qed
qed

lemma last_join:
  "xs \<noteq> [] \<Longrightarrow> last xs \<noteq> [] \<Longrightarrow> join sep xs \<noteq> [] \<and> last (join sep xs) = last (last xs)"
  by (induction sep xs rule: join.induct) auto

lemma sub_blank_lines:
  "\<forall>l \<in> set (l0 # ls). NL \<notin> set l \<Longrightarrow> \<not> blank_line (last (l0 # ls)) \<Longrightarrow>
   sub_blank (join [NL] (l0 # ls)) = join [NL] (l0 # filter (\<lambda>l. \<not> blank_line l) ls)"
proof (induction ls arbitrary: l0)
  case Nil
  then have "NL \<notin> set l0" by simp
  from sub_blank_copy [OF this, of "[]"] show ?case by (simp add: sub_blank_Nil)
next
  case (Cons l1 ls)
  from Cons.prems have n0: "NL \<notin> set l0" and n1: "NL \<notin> set l1"
    and nr: "\<forall>l \<in> set (l1 # ls). NL \<notin> set l" by auto
  from Cons.prems have lastnb: "\<not> blank_line (last (l1 # ls))" by simp
  have step: "sub_blank (join [NL] (l0 # l1 # ls)) = l0 @ sub_blank (NL # join [NL] (l1 # ls))"
    using sub_blank_copy [OF n0, of "NL # join [NL] (l1 # ls)"] by simp
  show ?case
  proof (cases "blank_line l1")
    case False
    have "match_blank (NL # join [NL] (l1 # ls)) = None"
    proof (cases ls)
      case Nil
      with match_blank_text_line [OF False n1, of "[]"] show ?thesis by simp
    next
      case (Cons l2 ls')
      with match_blank_text_line [OF False n1, of "NL # join [NL] (l2 # ls')"]
      show ?thesis by simp
    qed
    then have "sub_blank (NL # join [NL] (l1 # ls)) = NL # sub_blank (join [NL] (l1 # ls))"
      by (rule sub_blank_None)
    also have "sub_blank (join [NL] (l1 # ls)) = join [NL] (l1 # filter (\<lambda>l. \<not> blank_line l) ls)"
      using nr lastnb by (rule Cons.IH)
    finally show ?thesis using step False by simp
  next
    case True
    with lastnb obtain l2 ls' where ls: "ls = l2 # ls'" by (cases ls) auto
    have "sub_blank (NL # join [NL] (l1 # ls)) = sub_blank (NL # l1 @ NL # join [NL] (l2 # ls'))"
      by (simp add: ls)
    also have "\<dots> = sub_blank (NL # join [NL] (l2 # ls'))"
      using True n1 by (rule sub_blank_blank_line)
    finally have a: "sub_blank (NL # join [NL] (l1 # ls)) = sub_blank (NL # join [NL] ls)"
      by (simp only: ls)
    have "\<forall>l \<in> set (l0 # ls). NL \<notin> set l" using Cons.prems by auto
    moreover have "\<not> blank_line (last (l0 # ls))" using lastnb ls by simp
    ultimately have "sub_blank (join [NL] (l0 # ls)) = join [NL] (l0 # filter (\<lambda>l. \<not> blank_line l) ls)"
      by (rule Cons.IH)
    moreover have "sub_blank (join [NL] (l0 # ls)) = l0 @ sub_blank (NL # join [NL] ls)"
      using sub_blank_copy [OF n0, of "NL # join [NL] ls"] by (simp add: ls)
    ultimately show ?thesis using step a True by simp
  qed
qed

lemma last_filter_keep: "xs \<noteq> [] \<Longrightarrow> P (last xs) \<Longrightarrow> last (filter P xs) = last xs"
  by (induction xs rule: rev_induct) auto

lemma sub_blank_stripped:
  assumes "s \<noteq> []" and "\<not> is_space (hd s)" and "\<not> is_space (last s)"
  shows "sub_blank s = drop_blank_lines s \<and> sub_blank s \<noteq> []
         \<and> \<not> is_space (hd (sub_blank s)) \<and> \<not> is_space (last (sub_blank s))"
proof -
  obtain l0 ls where sp: "split_on NL s = l0 # ls"
    using split_on_not_Nil [of NL s] by (cases "split_on NL s") auto
  have hn: "hd s \<noteq> NL" and ln: "last s \<noteq> NL"
    using assms(2,3) is_space_NL by auto
  from split_on_hd [OF assms(1) hn] sp have h0: "hd s \<in> set l0" by simp
  with assms(2) have nb0: "\<not> blank_line l0"
    by (auto simp: blank_line_def list_all_iff)
  from split_on_last [OF assms(1) ln] sp have hl: "last s \<in> set (last (l0 # ls))" by simp
  with assms(3) have nbl: "\<not> blank_line (last (l0 # ls))"
    by (auto simp: blank_line_def list_all_iff)
  have nl: "\<forall>l \<in> set (l0 # ls). NL \<notin> set l"
    using split_on_lines [of _ NL s] sp by auto
  have js: "join [NL] (l0 # ls) = s"
    using join_split_on [of NL s] sp by simp
  have "sub_blank (join [NL] (l0 # ls)) = join [NL] (l0 # filter (\<lambda>l. \<not> blank_line l) ls)"
    using nl nbl by (rule sub_blank_lines)
  then have eq: "sub_blank s = drop_blank_lines s"
    using nb0 by (simp add: js drop_blank_lines_def sp)
  have "s = hd s # tl s" using assms(1) by simp
  then have "sub_blank s = hd s # sub_blank (tl s)"
    using sub_blank_None [OF match_blank_other [OF hn, of "tl s"]] by simp
  then have hd: "sub_blank s \<noteq> [] \<and> hd (sub_blank s) = hd s"
    by (metis list.distinct(1) list.sel(1))
  let ?ks = "filter (\<lambda>l. \<not> blank_line l) (l0 # ls)"
  have k1: "?ks \<noteq> []" using nb0 by simp
  have k2: "last ?ks = last (l0 # ls)"
    using nbl by (intro last_filter_keep) simp_all
  have k3: "last (l0 # ls) \<noteq> []" using hl by auto
  have "last (join [NL] ?ks) = last (last ?ks)"
    using last_join [OF k1, of "[NL]"] k2 k3 by simp
  then have "last (sub_blank s) = last (last (l0 # ls))"
    using eq k2 by (simp add: drop_blank_lines_def sp)
  moreover have "last (last (l0 # ls)) = last s"
  proof -
    have "last (join [NL] (l0 # ls)) = last (last (l0 # ls))"
      using last_join [of "l0 # ls" "[NL]"] k3 by simp
    then show ?thesis by (simp only: js)
  qed
  ultimately have "last (sub_blank s) = last s" by simp
  with eq hd assms show ?thesis by simp
qed

lemma clean_content_lines: "clean_content body = drop_blank_lines (strip body)"
proof (cases "strip body = []")
  case True
  have "strip [] = []" by (simp add: strip_def)
  then have "clean_content body = []"
    using True by (simp add: clean_content_def sub_blank_Nil)
  moreover have "drop_blank_lines [] = []"
    by (simp add: drop_blank_lines_def blank_line_def)
  ultimately show ?thesis using True by simp
next
  case False
  with strip_head [of body] strip_last [of body]
  have h: "\<not> is_space (hd (strip body))" and l: "\<not> is_space (last (strip body))" by auto
  from sub_blank_stripped [OF False h l]
  have eq: "sub_blank (strip body) = drop_blank_lines (strip body)"
    and ok: "sub_blank (strip body) = [] \<or>
             (\<not> is_space (hd (sub_blank (strip body))) \<and> \<not> is_space (last (sub_blank (strip body))))"
    by auto
  from strip_id [OF ok] eq show ?thesis
    by (simp only: clean_content_def)
qed


lemma set_update_subset: "set (AList.update k v al) \<subseteq> insert (k, v) (set al)"
  by (induction al) auto

lemma stored_entries:
  "(k, body) \<in> set (foldl store_entry acc ms) \<Longrightarrow>
   (k, body) \<in> set acc \<or> (\<exists>m \<in> set ms. k = strip (fst m) \<and> body = clean_content (snd m))"
proof (induction ms arbitrary: acc)
  case Nil
  then show ?case by simp
next
  case (Cons m ms)
  from Cons.IH [of "store_entry acc m"] Cons.prems
  consider "(k, body) \<in> set (store_entry acc m)"
    | "\<exists>m \<in> set ms. k = strip (fst m) \<and> body = clean_content (snd m)"
    by auto
  then show ?case
  proof cases
    case 1
    obtain g1 g2 where m: "m = (g1, g2)" by (cases m)
    from 1 set_update_subset [of "strip g1" "clean_content g2" acc]
    have "(k, body) = (strip g1, clean_content g2) \<or> (k, body) \<in> set acc"
      by (auto simp: store_entry_def m)
    then show ?thesis using m by auto
  next
    case 2
    then show ?thesis by auto
  qed
qed





section \<open>The keys of the output block\<close>

text \<open>A text in which neither the entry marker nor the end marker occurs.\<close>

definition marker_free :: "string \<Rightarrow> bool" where
  "marker_free s = (\<not> sublist BIBITEM s \<and> \<not> sublist END_BIB s)"

lemma NL_notin_markers: "NL \<notin> set BIBITEM" "NL \<notin> set END_BIB"
  by (simp_all add: BIBITEM_def END_BIB_def NL_def BSL_def)

lemma markers_not_Nil: "BIBITEM \<noteq> []" "END_BIB \<noteq> []"
  by (simp_all add: BIBITEM_def END_BIB_def)

lemma prefix_before_NL:
  assumes "NL \<notin> set p" and "prefix p (xs @ NL # ys)"
  shows "prefix p xs"
proof -
  from assms(2) consider "prefix p xs" | us where "p = xs @ us" "prefix us (NL # ys)"
    by (auto simp: prefix_append)
  then show ?thesis
  proof cases
    case 1
    then show ?thesis .
  next
    case 2
    show ?thesis
    proof (cases us)
      case Nil
      with 2 show ?thesis by simp
    next
      case (Cons u us')
      with 2 have "u = NL" by simp
      with 2 Cons assms(1) show ?thesis by simp
    qed
  qed
qed

lemma entry_ahead_before_NL: "entry_ahead (xs @ NL # ys) \<Longrightarrow> entry_ahead xs"
  unfolding entry_ahead_def
  using prefix_before_NL NL_notin_markers by blast

lemma not_entry_ahead_NL: "\<not> entry_ahead (NL # ys)"
  by (simp add: entry_ahead_def BIBITEM_def END_BIB_def NL_def BSL_def)

lemma entry_ahead_not_Nil: "entry_ahead ys \<Longrightarrow> ys \<noteq> []"
  by (auto simp: entry_ahead_def BIBITEM_def END_BIB_def)

lemma marker_free_Cons:
  "marker_free (c # xs) \<Longrightarrow> marker_free xs \<and> \<not> entry_ahead (c # xs)"
  by (auto simp: marker_free_def entry_ahead_def sublist_Cons_right dest: prefix_imp_sublist)

lemma marker_free_Nil: "marker_free []"
  by (simp add: marker_free_def markers_not_Nil)

lemma body_end_ahead: "entry_ahead ys \<Longrightarrow> body_end ys = Some 0"
  by (cases ys) (auto simp: entry_ahead_def BIBITEM_def END_BIB_def)

lemma body_end_pad:
  "marker_free xs \<Longrightarrow> body_end zs = Some j \<Longrightarrow>
   body_end (xs @ NL # zs) = Some (length xs + 1 + j)"
proof (induction xs)
  case Nil
  then show ?case by (simp add: not_entry_ahead_NL)
next
  case (Cons c xs)
  from marker_free_Cons [OF Cons.prems(1)]
  have mf: "marker_free xs" and na: "\<not> entry_ahead (c # xs)" by auto
  have "\<not> entry_ahead ((c # xs) @ NL # zs)"
    using na entry_ahead_before_NL by blast
  then show ?case
    using Cons.IH [OF mf Cons.prems(2)] by simp
qed

lemma body_end_pad1:
  "marker_free xs \<Longrightarrow> entry_ahead ys \<Longrightarrow> body_end (xs @ NL # ys) = Some (length xs + 1)"
  using body_end_pad [of xs ys 0] by (simp add: body_end_ahead)

lemma body_end_pad2:
  "marker_free xs \<Longrightarrow> entry_ahead ys \<Longrightarrow>
   body_end (xs @ NL # NL # ys) = Some (length xs + 2)"
proof -
  assume mf: "marker_free xs" and ea: "entry_ahead ys"
  have "body_end (NL # ys) = Some 1"
    using body_end_pad1 [OF marker_free_Nil ea] by simp
  from body_end_pad [OF mf this] show ?thesis by simp
qed

lemma length_BIBITEM: "length BIBITEM = 9"
  by (simp add: BIBITEM_def)

lemma match_bibitem_entry:
  assumes "k \<noteq> []" and "CHR ''}'' \<notin> set k" and "body_end rest = Some j"
  shows "match_bibitem (BIBITEM @ k @ ''}'' @ rest) = Some (k, take j rest, 9 + length k + 1 + j)"
proof -
  have t: "drop 9 (BIBITEM @ k @ ''}'' @ rest) = k @ ''}'' @ rest"
    by (simp add: length_BIBITEM)
  have "\<And>x. x \<in> set k \<Longrightarrow> x \<noteq> CHR ''}''" using assms(2) by auto
  then have "takeWhile (\<lambda>x. x \<noteq> CHR ''}'') (k @ ''}'' @ rest) =
               k @ takeWhile (\<lambda>x. x \<noteq> CHR ''}'') (''}'' @ rest)"
    by (rule takeWhile_append2)
  then have key: "takeWhile (\<lambda>x. x \<noteq> CHR ''}'') (k @ ''}'' @ rest) = k" by simp
  have p: "prefix BIBITEM (BIBITEM @ k @ ''}'' @ rest)" by simp
  show ?thesis
    unfolding match_bibitem_def
    by (simp only: p if_True t Let_def key) (simp add: assms)
qed

lemma match_bibitem_no_prefix: "\<not> prefix BIBITEM s \<Longrightarrow> match_bibitem s = None"
  by (simp add: match_bibitem_def)

lemma bibitem_finditer_Some:
  "match_bibitem s = Some (k, b, n) \<Longrightarrow> bibitem_finditer s = (k, b) # bibitem_finditer (drop n s)"
  by (subst bibitem_finditer.simps)
     (auto simp: match_bibitem_def BIBITEM_def simp del: bibitem_finditer.simps)

lemma bibitem_finditer_None:
  "match_bibitem (c # cs) = None \<Longrightarrow> bibitem_finditer (c # cs) = bibitem_finditer cs"
  by (subst bibitem_finditer.simps) (simp del: bibitem_finditer.simps)

lemma drop_whole: "n = length a \<Longrightarrow> s = a @ b \<Longrightarrow> drop n s = b"
  by simp

lemma bibitem_finditer_entry1:
  assumes "k \<noteq> []" and "CHR ''}'' \<notin> set k" and "marker_free xs" and "entry_ahead ys"
  shows "bibitem_finditer (BIBITEM @ k @ ''}'' @ xs @ NL # ys) = (k, xs @ [NL]) # bibitem_finditer ys"
proof -
  have "body_end (xs @ NL # ys) = Some (length xs + 1)"
    using assms(3,4) by (rule body_end_pad1)
  from match_bibitem_entry [OF assms(1,2) this]
  have "match_bibitem (BIBITEM @ k @ ''}'' @ xs @ NL # ys) =
          Some (k, xs @ [NL], 9 + length k + 1 + (length xs + 1))"
    by simp
  from bibitem_finditer_Some [OF this]
  have "bibitem_finditer (BIBITEM @ k @ ''}'' @ xs @ NL # ys) =
          (k, xs @ [NL]) # bibitem_finditer (drop (9 + length k + 1 + (length xs + 1))
                                               (BIBITEM @ k @ ''}'' @ xs @ NL # ys))" .
  moreover have "drop (9 + length k + 1 + (length xs + 1)) (BIBITEM @ k @ ''}'' @ xs @ NL # ys) = ys"
    by (rule drop_whole [of _ "BIBITEM @ k @ ''}'' @ xs @ [NL]"]) (simp_all add: length_BIBITEM)
  ultimately show ?thesis by (simp only:)
qed

lemma bibitem_finditer_entry2:
  assumes "k \<noteq> []" and "CHR ''}'' \<notin> set k" and "marker_free xs" and "entry_ahead ys"
  shows "bibitem_finditer (BIBITEM @ k @ ''}'' @ xs @ NL # NL # ys) =
           (k, xs @ [NL, NL]) # bibitem_finditer ys"
proof -
  have "body_end (xs @ NL # NL # ys) = Some (length xs + 2)"
    using assms(3,4) by (rule body_end_pad2)
  from match_bibitem_entry [OF assms(1,2) this]
  have "match_bibitem (BIBITEM @ k @ ''}'' @ xs @ NL # NL # ys) =
          Some (k, xs @ [NL, NL], 9 + length k + 1 + (length xs + 2))"
    by simp
  from bibitem_finditer_Some [OF this]
  have "bibitem_finditer (BIBITEM @ k @ ''}'' @ xs @ NL # NL # ys) =
          (k, xs @ [NL, NL]) # bibitem_finditer (drop (9 + length k + 1 + (length xs + 2))
                                               (BIBITEM @ k @ ''}'' @ xs @ NL # NL # ys))" .
  moreover have "drop (9 + length k + 1 + (length xs + 2))
                   (BIBITEM @ k @ ''}'' @ xs @ NL # NL # ys) = ys"
    by (rule drop_whole [of _ "BIBITEM @ k @ ''}'' @ xs @ [NL, NL]"]) (simp_all add: length_BIBITEM)
  ultimately show ?thesis by (simp only:)
qed

lemma bibitem_finditer_skip:
  "\<not> sublist BIBITEM xs \<Longrightarrow> bibitem_finditer (xs @ NL # ys) = bibitem_finditer ys"
proof (induction xs)
  case Nil
  have "\<not> prefix BIBITEM (NL # ys)"
    by (simp add: BIBITEM_def NL_def BSL_def)
  then have "match_bibitem (NL # ys) = None" by (rule match_bibitem_no_prefix)
  then show ?case by (simp add: bibitem_finditer_None del: bibitem_finditer.simps)
next
  case (Cons c xs)
  from Cons.prems have np: "\<not> prefix BIBITEM (c # xs)" and ns: "\<not> sublist BIBITEM xs"
    by (auto simp: sublist_Cons_right)
  have "\<not> prefix BIBITEM ((c # xs) @ NL # ys)"
    using np prefix_before_NL NL_notin_markers(1) by blast
  then have "match_bibitem (c # (xs @ NL # ys)) = None"
    by (simp add: match_bibitem_no_prefix)
  then have "bibitem_finditer (c # (xs @ NL # ys)) = bibitem_finditer (xs @ NL # ys)"
    by (rule bibitem_finditer_None)
  with Cons.IH [OF ns] show ?case by (simp del: bibitem_finditer.simps)
qed

lemma bibitem_finditer_END_BIB: "bibitem_finditer END_BIB = []"
  by code_simp

text \<open>
  A key and a body that \<^const>\<open>full_entry\<close> writes in a form the entry pattern reads
  back: the key is not empty and has no closing brace, the body has no marker. The text
  of a block after its opening line and the blank line: the entries with a blank line
  between them, and the end marker on a line of its own.
\<close>

definition entry_ok :: "string \<times> string \<Rightarrow> bool" where
  "entry_ok e = (fst e \<noteq> [] \<and> CHR ''}'' \<notin> set (fst e) \<and> marker_free (snd e))"

definition block_tail :: "(string \<times> string) list \<Rightarrow> string" where
  "block_tail es = join [NL, NL] (map (\<lambda>e. full_entry (fst e) (snd e)) es) @ [NL] @ END_BIB"

lemma strip_padded:
  assumes "\<forall>x \<in> set w1. is_space x" and "\<forall>x \<in> set w2. is_space x"
  shows "strip (w1 @ b @ w2) = strip b"
proof -
  have "\<And>x. x \<in> set w1 \<Longrightarrow> is_space x" using assms(1) by auto
  then have l: "dropWhile is_space (w1 @ b @ w2) = dropWhile is_space (b @ w2)"
    by (rule dropWhile_append2)
  show ?thesis
  proof (cases "\<forall>x \<in> set b. is_space x")
    case True
    then have "\<forall>x \<in> set (b @ w2). is_space x" using assms(2) by auto
    then have "dropWhile is_space (b @ w2) = []" by (simp only: dropWhile_eq_Nil_conv)
    moreover from True have "dropWhile is_space b = []" by (simp only: dropWhile_eq_Nil_conv)
    ultimately show ?thesis using l by (simp only: strip_def)
  next
    case False
    then obtain x where "x \<in> set b" "\<not> is_space x" by auto
    then have "dropWhile is_space (b @ w2) = dropWhile is_space b @ w2"
      by (rule dropWhile_append1)
    moreover have "\<And>x. x \<in> set (rev w2) \<Longrightarrow> is_space x" using assms(2) by auto
    then have "dropWhile is_space (rev w2 @ rev (dropWhile is_space b)) =
                     dropWhile is_space (rev (dropWhile is_space b))"
      by (rule dropWhile_append2)
    ultimately show ?thesis using l by (simp add: strip_def)
  qed
qed

lemma strip_pad1: "strip (NL # b @ [NL]) = strip b"
  using strip_padded [of "[NL]" "[NL]" b] by (simp add: is_space_NL)

lemma strip_pad2: "strip (NL # b @ [NL, NL]) = strip b"
  using strip_padded [of "[NL]" "[NL, NL]" b] by (simp add: is_space_NL)

lemma marker_free_NL_Cons: "marker_free b \<Longrightarrow> marker_free (NL # b)"
  by (auto simp: marker_free_def sublist_Cons_right BIBITEM_def END_BIB_def NL_def BSL_def)

lemma entry_ahead_full_entry: "entry_ahead (full_entry k b @ rest)"
  by (simp add: entry_ahead_def full_entry_def)

lemma entry_ahead_END_BIB: "entry_ahead END_BIB"
  by (simp add: entry_ahead_def)

lemma block_tail_Cons_Cons:
  "block_tail (e # e' # es) =
     BIBITEM @ fst e @ ''}'' @ (NL # snd e) @ NL # NL # block_tail (e' # es)"
  by (simp add: block_tail_def full_entry_def)

lemma block_tail_single:
  "block_tail [e] = BIBITEM @ fst e @ ''}'' @ (NL # snd e) @ NL # END_BIB"
  by (simp add: block_tail_def full_entry_def)

lemma entry_ahead_block_tail: "entry_ahead (block_tail (e # es))"
  by (cases es) (simp_all add: block_tail_def entry_ahead_def full_entry_def)

lemma bibitem_finditer_block_tail:
  "\<forall>x \<in> set (e # es). entry_ok x \<Longrightarrow>
   map (\<lambda>m. (fst m, strip (snd m))) (bibitem_finditer (block_tail (e # es))) =
     map (\<lambda>x. (fst x, strip (snd x))) (e # es)"
proof (induction es arbitrary: e)
  case Nil
  then have ok: "fst e \<noteq> []" "CHR ''}'' \<notin> set (fst e)" "marker_free (NL # snd e)"
    by (auto simp: entry_ok_def marker_free_NL_Cons)
  have "bibitem_finditer (block_tail [e]) = (fst e, (NL # snd e) @ [NL]) # bibitem_finditer END_BIB"
    unfolding block_tail_single
    using ok entry_ahead_END_BIB by (rule bibitem_finditer_entry1)
  then show ?case
    by (simp add: bibitem_finditer_END_BIB strip_pad1 del: bibitem_finditer.simps)
next
  case (Cons e' es)
  then have ok: "fst e \<noteq> []" "CHR ''}'' \<notin> set (fst e)" "marker_free (NL # snd e)"
    by (auto simp: entry_ok_def marker_free_NL_Cons)
  from Cons.prems have rest: "\<forall>x \<in> set (e' # es). entry_ok x" by simp
  have "bibitem_finditer (block_tail (e # e' # es)) =
          (fst e, (NL # snd e) @ [NL, NL]) # bibitem_finditer (block_tail (e' # es))"
    unfolding block_tail_Cons_Cons
    using ok entry_ahead_block_tail by (rule bibitem_finditer_entry2)
  with Cons.IH [OF rest] show ?case
    by (simp add: strip_pad2 del: bibitem_finditer.simps)
qed

lemma serialize_block_tail:
  "serialize ol (map (\<lambda>e. full_entry (fst e) (snd e)) es) = ol @ NL # NL # block_tail es"
  by (simp add: serialize_def block_tail_def)

lemma bibitem_finditer_serialize:
  assumes "\<not> sublist BIBITEM ol" and "\<forall>x \<in> set es. entry_ok x" and "es \<noteq> []"
  shows "map (\<lambda>m. (fst m, strip (snd m)))
           (bibitem_finditer (serialize ol (map (\<lambda>e. full_entry (fst e) (snd e)) es))) =
         map (\<lambda>x. (fst x, strip (snd x))) es"
proof -
  obtain e es' where es: "es = e # es'" using assms(3) by (cases es) auto
  have "bibitem_finditer (ol @ NL # NL # block_tail es) = bibitem_finditer (NL # block_tail es)"
    using assms(1) by (rule bibitem_finditer_skip)
  also have "\<dots> = bibitem_finditer (block_tail es)"
    using bibitem_finditer_skip [of "[]" "block_tail es"]
    by (simp add: markers_not_Nil del: bibitem_finditer.simps)
  finally show ?thesis
    using bibitem_finditer_block_tail [of e es'] assms(2)
    by (simp only: serialize_block_tail es)
qed

lemma body_end_free: "body_end r = Some j \<Longrightarrow> marker_free (take j r)"
proof (induction r arbitrary: j)
  case Nil
  then show ?case by simp
next
  case (Cons c cs)
  show ?case
  proof (cases "entry_ahead (c # cs)")
    case True
    with Cons.prems have "j = 0" by simp
    then show ?thesis by (simp add: marker_free_Nil)
  next
    case False
    with Cons.prems obtain j' where j: "body_end cs = Some j'" "j = Suc j'" by auto
    from Cons.IH [OF j(1)] have mf: "marker_free (take j' cs)" .
    have pre: "prefix (c # take j' cs) (c # cs)" by (simp add: take_is_prefix)
    have "\<not> prefix p (c # take j' cs)" if "\<not> prefix p (c # cs)" for p
      using that pre prefix_order.trans by blast
    with False have "\<not> prefix BIBITEM (c # take j' cs)" "\<not> prefix END_BIB (c # take j' cs)"
      by (auto simp: entry_ahead_def)
    with mf show ?thesis
      by (simp add: j(2) marker_free_def sublist_Cons_right)
  qed
qed

lemma match_bibitem_ok:
  "match_bibitem s = Some (k, b, n) \<Longrightarrow> k \<noteq> [] \<and> CHR ''}'' \<notin> set k \<and> marker_free b"
  by (auto simp: match_bibitem_def Let_def split: if_splits option.splits
           dest: set_takeWhileD body_end_free)

lemma bibitem_finditer_ok:
  "m \<in> set (bibitem_finditer s) \<Longrightarrow>
   fst m \<noteq> [] \<and> CHR ''}'' \<notin> set (fst m) \<and> marker_free (snd m)"
proof (induction s arbitrary: m rule: bibitem_finditer.induct)
  case (1 s)
  show ?case
  proof (cases "s = []")
    case True
    with "1.prems" show ?thesis by (simp add: bibitem_finditer_Nil)
  next
    case False
    then obtain c cs where s: "s = c # cs" by (cases s) auto
    show ?thesis
    proof (cases "match_bibitem s")
      case None
      then have "bibitem_finditer s = bibitem_finditer (tl s)"
        using bibitem_finditer_None [of c cs] s by simp
      with "1.prems" "1.IH"(1) [OF False None] show ?thesis by simp
    next
      case (Some r)
      obtain k b n where r: "r = (k, b, n)" by (cases r)
      from Some r have mb: "match_bibitem s = Some (k, b, n)" by simp
      from bibitem_finditer_Some [OF mb] "1.prems"
      consider "m = (k, b)" | "m \<in> set (bibitem_finditer (drop n s))" by auto
      then show ?thesis
      proof cases
        case 1
        with match_bibitem_ok [OF mb] show ?thesis by simp
      next
        case 2
        have "(k, b, n) = r" using r by simp
        moreover have "(b, n) = (b, n)" by simp
        ultimately show ?thesis
          using "1.IH"(2) [OF False Some _ _ 2] by blast
      qed
    qed
  qed
qed

lemma sublist_around_NL:
  assumes "p \<noteq> []" and "NL \<notin> set p"
  shows "sublist p (xs @ NL # ys) \<Longrightarrow> sublist p xs \<or> sublist p ys"
proof (induction xs)
  case Nil
  have "\<not> prefix p (NL # ys)"
    using assms by (cases p) auto
  with Nil show ?case by (simp add: sublist_Cons_right)
next
  case (Cons c xs)
  from Cons.prems consider "prefix p ((c # xs) @ NL # ys)" | "sublist p (xs @ NL # ys)"
    by (auto simp: sublist_Cons_right)
  then show ?case
  proof cases
    case 1
    with assms(2) have "prefix p (c # xs)" by (rule prefix_before_NL)
    then show ?thesis by (auto dest: prefix_imp_sublist)
  next
    case 2
    with Cons.IH show ?thesis by (auto simp: sublist_Cons_right)
  qed
qed

lemma sublist_join_line:
  assumes "p \<noteq> []" and "NL \<notin> set p"
  shows "sublist p (join [NL] ls) \<Longrightarrow> \<exists>l \<in> set ls. sublist p l"
proof (induction ls rule: induct_list012)
  case 1
  with assms(1) show ?case by simp
next
  case (2 x)
  then show ?case by simp
next
  case (3 x y zs)
  from "3.prems" have "sublist p (x @ NL # join [NL] (y # zs))" by simp
  from sublist_around_NL [OF assms this] "3.IH"(2) show ?case by auto
qed

lemma line_sublist_join: "l \<in> set ls \<Longrightarrow> sublist l (join sep ls)"
proof (induction ls rule: induct_list012)
  case 1
  then show ?case by simp
next
  case (2 x)
  then show ?case by simp
next
  case (3 x y zs)
  show ?case
  proof (cases "l = x")
    case True
    then show ?thesis by (simp add: prefix_imp_sublist)
  next
    case False
    with "3.prems" "3.IH"(2) have "sublist l (join sep (y # zs))" by simp
    then obtain a b where "join sep (y # zs) = a @ l @ b" by (auto simp: sublist_def)
    then have "x @ sep @ join sep (y # zs) = (x @ sep @ a) @ l @ b" by simp
    then have "sublist l (x @ sep @ join sep (y # zs))"
      unfolding sublist_def by blast
    then show ?thesis by simp
  qed
qed

lemma sublist_strip: "sublist (strip s) s"
proof -
  have "rev (dropWhile is_space s) =
          takeWhile is_space (rev (dropWhile is_space s))
          @ dropWhile is_space (rev (dropWhile is_space s))"
    by simp
  then have "rev (rev (dropWhile is_space s)) =
          rev (dropWhile is_space (rev (dropWhile is_space s)))
          @ rev (takeWhile is_space (rev (dropWhile is_space s)))"
    by (simp only: rev_append [symmetric])
  then have "prefix (rev (dropWhile is_space (rev (dropWhile is_space s)))) (dropWhile is_space s)"
    by (simp only: rev_rev_ident) (rule prefixI)
  then have "sublist (strip s) (dropWhile is_space s)"
    unfolding strip_def by (rule prefix_imp_sublist)
  moreover have "sublist (dropWhile is_space s) s"
    using suffix_dropWhile by (rule suffix_imp_sublist)
  ultimately show ?thesis by (rule sublist_order.order.trans)
qed

lemma set_strip: "set (strip s) \<subseteq> set s"
  using sublist_strip by (rule set_mono_sublist)

lemma sublist_clean_content:
  assumes "p \<noteq> []" and "NL \<notin> set p" and "sublist p (clean_content x)"
  shows "sublist p x"
proof -
  from assms(3) have "sublist p (join [NL] (filter (\<lambda>l. \<not> blank_line l) (split_on NL (strip x))))"
    by (simp only: clean_content_lines drop_blank_lines_def)
  from sublist_join_line [OF assms(1,2) this]
  obtain l where l: "l \<in> set (split_on NL (strip x))" "sublist p l" by auto
  from line_sublist_join [OF l(1), of "[NL]"] have "sublist l (strip x)"
    by (simp only: join_split_on)
  with l(2) have "sublist p (strip x)" by (rule sublist_order.order.trans)
  then show ?thesis using sublist_strip by (rule sublist_order.order.trans)
qed

lemma marker_free_clean_content: "marker_free x \<Longrightarrow> marker_free (clean_content x)"
  unfolding marker_free_def
  using sublist_clean_content markers_not_Nil NL_notin_markers by blast

lemma split_on_line: "c \<notin> set l \<Longrightarrow> split_on c (l @ c # rest) = l # split_on c rest"
  by (induction l) auto

lemma split_on_join:
  "xs \<noteq> [] \<Longrightarrow> \<forall>l \<in> set xs. c \<notin> set l \<Longrightarrow> split_on c (join [c] xs) = xs"
proof (induction xs rule: induct_list012)
  case 1
  then show ?case by simp
next
  case (2 x)
  then show ?case by (simp add: split_on_no_sep)
next
  case (3 x y zs)
  then have "split_on c (join [c] (y # zs)) = y # zs" by simp
  moreover have "c \<notin> set x" using "3.prems" by simp
  ultimately show ?case by (simp add: split_on_line)
qed

lemma drop_blank_lines_idem: "drop_blank_lines (drop_blank_lines s) = drop_blank_lines s"
proof (cases "filter (\<lambda>l. \<not> blank_line l) (split_on NL s) = []")
  case True
  then have "drop_blank_lines s = []" by (simp add: drop_blank_lines_def)
  moreover have "drop_blank_lines [] = []" by (simp add: drop_blank_lines_def blank_line_def)
  ultimately show ?thesis by simp
next
  case False
  let ?ks = "filter (\<lambda>l. \<not> blank_line l) (split_on NL s)"
  have "\<forall>l \<in> set ?ks. NL \<notin> set l" using split_on_lines [of _ NL s] by auto
  with False have "split_on NL (join [NL] ?ks) = ?ks" by (rule split_on_join)
  then show ?thesis by (simp add: drop_blank_lines_def)
qed

lemma strip_clean_content: "strip (clean_content x) = clean_content x"
  unfolding clean_content_def by (rule strip_strip)

lemma clean_content_idem: "clean_content (clean_content x) = clean_content x"
proof -
  have "clean_content (clean_content x) = drop_blank_lines (strip (clean_content x))"
    by (rule clean_content_lines)
  also have "\<dots> = drop_blank_lines (clean_content x)" by (simp only: strip_clean_content)
  also have "\<dots> = drop_blank_lines (drop_blank_lines (strip x))" by (simp only: clean_content_lines)
  also have "\<dots> = drop_blank_lines (strip x)" by (rule drop_blank_lines_idem)
  also have "\<dots> = clean_content x" by (simp only: clean_content_lines)
  finally show ?thesis .
qed

lemma clean_content_strip: "strip a = strip b \<Longrightarrow> clean_content a = clean_content b"
  by (simp add: clean_content_def)

text \<open>
  The normalised body of the last entry of a block that has the key \<open>k\<close>, and the body
  the mapping holds for a key.
\<close>

definition last_body :: "(string \<times> string) list \<Rightarrow> string \<Rightarrow> string option" where
  "last_body ms k =
     (let fs = filter (\<lambda>m. strip (fst m) = k) ms
      in if fs = [] then None else Some (clean_content (snd (last fs))))"

definition lookup_body :: "(string \<times> string) list \<Rightarrow> string \<Rightarrow> string" where
  "lookup_body be k = (case map_of be k of Some body \<Rightarrow> body | None \<Rightarrow> [])"

lemma map_of_store_entry:
  "map_of (store_entry entries m) = (map_of entries)(strip (fst m) \<mapsto> clean_content (snd m))"
  by (cases m) (simp add: store_entry_def update_conv')

lemma last_body_snoc:
  "last_body (ms @ [m]) = (last_body ms)(strip (fst m) \<mapsto> clean_content (snd m))"
  by (rule ext) (simp add: last_body_def Let_def)

lemma map_of_parsed: "map_of (foldl store_entry [] ms) = last_body ms"
proof (induction ms rule: rev_induct)
  case Nil
  show ?case by (rule ext) (simp add: last_body_def)
next
  case (snoc m ms)
  then show ?case by (simp add: map_of_store_entry last_body_snoc)
qed

lemma parsed_entry_ok:
  assumes "(k, v) \<in> set (foldl store_entry [] (bibitem_finditer s))"
  shows "CHR ''}'' \<notin> set k \<and> marker_free v \<and> clean_content v = v \<and> strip k = k"
proof -
  from stored_entries [OF assms] obtain m where
    m: "m \<in> set (bibitem_finditer s)" "k = strip (fst m)" "v = clean_content (snd m)"
    by auto
  from bibitem_finditer_ok [OF m(1)]
  have "CHR ''}'' \<notin> set (fst m)" and mf: "marker_free (snd m)" by auto
  with set_strip [of "fst m"] have "CHR ''}'' \<notin> set k" unfolding m(2) by blast
  moreover have "marker_free v" unfolding m(3) using mf by (rule marker_free_clean_content)
  moreover have "clean_content v = v" unfolding m(3) by (rule clean_content_idem)
  moreover have "strip k = k" unfolding m(2) by (rule strip_strip)
  ultimately show ?thesis by simp
qed

lemma entry_text_lookup:
  "k \<in> fst ` set be \<Longrightarrow> entry_text be k = full_entry k (lookup_body be k)"
  by (auto simp: entry_text_def lookup_body_def map_of_None_iff split: option.splits)

lemma lookup_body_mem:
  "k \<in> fst ` set be \<Longrightarrow> (k, lookup_body be k) \<in> set be"
  by (auto simp: lookup_body_def map_of_None_iff split: option.splits dest: map_of_SomeD)

lemma reconciled_keys_subset: "set (reconciled_keys co be) \<subseteq> fst ` set be"
  by (auto simp: reconciled_keys_def matched_keys_def orphan_keys_def)

lemma reconciled_keys_set: "set (reconciled_keys co be) = fst ` set be"
  by (auto simp: reconciled_keys_def matched_keys_def orphan_keys_def)

lemma block_reparse:
  assumes "be = foldl store_entry [] (bibitem_finditer s)" and "be \<noteq> []"
    and "\<not> sublist BIBITEM ol" and "[] \<notin> fst ` set be"
  shows "map (\<lambda>m. (fst m, strip (snd m)))
           (bibitem_finditer (serialize ol (map (entry_text be) (reconciled_keys co be)))) =
         map (\<lambda>k. (k, lookup_body be k)) (reconciled_keys co be)"
proof -
  let ?rk = "reconciled_keys co be"
  let ?es = "map (\<lambda>k. (k, lookup_body be k)) ?rk"
  have sub: "set ?rk \<subseteq> fst ` set be" by (rule reconciled_keys_subset)
  have etx: "map (entry_text be) ?rk = map (\<lambda>e. full_entry (fst e) (snd e)) ?es"
  proof -
    have "entry_text be k = full_entry k (lookup_body be k)" if "k \<in> set ?rk" for k
      using that sub by (intro entry_text_lookup) blast
    then show ?thesis by (simp add: comp_def)
  qed
  have mem: "(k, lookup_body be k) \<in> set (foldl store_entry [] (bibitem_finditer s))"
    if "k \<in> set ?rk" for k
  proof -
    have "(k, lookup_body be k) \<in> set be"
      using that sub by (intro lookup_body_mem) blast
    then show ?thesis by (simp only: assms(1) [symmetric])
  qed
  have ok: "\<forall>x \<in> set ?es. entry_ok x"
  proof
    fix x assume "x \<in> set ?es"
    then obtain k where k: "k \<in> set ?rk" "x = (k, lookup_body be k)" by auto
    from parsed_entry_ok [OF mem [OF k(1)]]
    have "CHR ''}'' \<notin> set k" "marker_free (lookup_body be k)" by auto
    moreover have "k \<noteq> []" using k(1) sub assms(4) by auto
    ultimately show "entry_ok x" by (simp add: entry_ok_def k(2))
  qed
  have "fst ` set be \<noteq> {}" using assms(2) by simp
  then have ne: "?es \<noteq> []" using reconciled_keys_set [of co be] by auto
  have stripped: "strip (lookup_body be k) = lookup_body be k" if "k \<in> set ?rk" for k
  proof -
    from parsed_entry_ok [OF mem [OF that]] have "clean_content (lookup_body be k) = lookup_body be k"
      by simp
    then show ?thesis by (metis strip_clean_content)
  qed
  have "map (\<lambda>m. (fst m, strip (snd m)))
          (bibitem_finditer (serialize ol (map (\<lambda>e. full_entry (fst e) (snd e)) ?es))) =
        map (\<lambda>x. (fst x, strip (snd x))) ?es"
    using assms(3) ok ne by (rule bibitem_finditer_serialize)
  also have "\<dots> = map (\<lambda>k. (k, strip (lookup_body be k))) ?rk"
    by (simp add: comp_def)
  also have "\<dots> = ?es"
    using stripped by auto
  finally show ?thesis by (simp only: etx)
qed

lemma extract_entries:
  assumes "extract_bibliography_entries content = Some (be, (bs, es), ol)"
  shows "be = foldl store_entry [] (bibitem_finditer (slice content bs es))"
  using assms
  by (auto simp: extract_bibliography_entries_def Let_def split: option.splits
           simp del: bibitem_finditer.simps)

text \<open>
  Claim C1, as amended. Let the rewrite produce a block for a document whose opening
  line carries no entry marker and whose input block has no blank key. Then the keys that
  the entry pattern reads in the output block are the keys of the reconciled list: no key
  occurs twice among them, and they are exactly the keys of the input block, so no key is
  created and none is lost. As multisets they are the keys of the input block with the
  repetitions removed, and equal to the keys of the input block when it has no key twice.
  For every entry of the output block, its normalised body is that of the last entry of
  the input block with its key.
\<close>

theorem output_block_keys:
  assumes "reorder_content content = Inr (blk, new_content)"
    and "extract_bibliography_entries content = Some (be, (bs, es), ol)"
    and "\<not> sublist BIBITEM ol"
    and "[] \<notin> set (block_keys (slice content bs es))"
  shows "block_keys blk = reconciled_keys (get_ordered_citations (find_all_citations content)) be \<and>
         distinct (block_keys blk) \<and>
         set (block_keys blk) = set (block_keys (slice content bs es)) \<and>
         mset (block_keys blk) = mset (first_keys (block_keys (slice content bs es))) \<and>
         (distinct (block_keys (slice content bs es)) \<longrightarrow>
            mset (block_keys blk) = mset (block_keys (slice content bs es))) \<and>
         (\<forall>m \<in> set (bibitem_finditer blk).
            last_body (bibitem_finditer (slice content bs es)) (strip (fst m)) =
              Some (clean_content (snd m)))"
proof -
  let ?co = "get_ordered_citations (find_all_citations content)"
  let ?sec = "slice content bs es"
  let ?rk = "reconciled_keys ?co be"
  from assms(1,2) have cr: "snd (create_reordered_bibliography ?co be ol) = Some blk"
    by (auto simp: reorder_content_def Let_def split: if_splits option.splits)
  from cr have ne: "be \<noteq> []" by (rule create_Some_nonempty)
  have b: "blk = serialize ol (map (entry_text be) ?rk)"
    using cr create_block [OF ne, of ?co ol] by simp
  have be: "be = foldl store_entry [] (bibitem_finditer ?sec)"
    using assms(2) by (rule extract_entries)
  have k: "map fst be = first_keys (block_keys ?sec)" using assms(2) by (rule extract_keys)
  then have "set (map fst be) = set (block_keys ?sec)" by (simp only: set_first_keys)
  with assms(4) have nb: "[] \<notin> fst ` set be" by simp
  have rp: "map (\<lambda>m. (fst m, strip (snd m))) (bibitem_finditer blk) =
              map (\<lambda>k. (k, lookup_body be k)) ?rk"
    unfolding b using be ne assms(3) nb by (rule block_reparse)
  have sub: "set ?rk \<subseteq> fst ` set be" by (rule reconciled_keys_subset)
  have mem: "(k, lookup_body be k) \<in> set (foldl store_entry [] (bibitem_finditer ?sec))"
    if "k \<in> set ?rk" for k
  proof -
    have "(k, lookup_body be k) \<in> set be"
      using that sub by (intro lookup_body_mem) blast
    then show ?thesis by (simp only: be [symmetric])
  qed
  have "map fst (map (\<lambda>m. (fst m, strip (snd m))) (bibitem_finditer blk)) = ?rk"
    unfolding rp by (simp add: comp_def)
  then have fk: "map fst (bibitem_finditer blk) = ?rk"
    by (simp add: comp_def del: bibitem_finditer.simps)
  have "map strip ?rk = ?rk"
  proof (rule map_idI)
    fix k assume "k \<in> set ?rk"
    from parsed_entry_ok [OF mem [OF this]] show "strip k = k" by simp
  qed
  moreover have "block_keys blk = map strip (map fst (bibitem_finditer blk))"
    by (simp add: block_keys_def comp_def del: bibitem_finditer.simps)
  ultimately have 1: "block_keys blk = ?rk" by (simp only: fk)
  have dbe: "distinct (map fst be)" unfolding k by (rule distinct_first_keys)
  have dco: "distinct ?co"
    unfolding ordered_citations_first_keys by (rule distinct_first_keys)
  have 4: "mset (block_keys blk) = mset (first_keys (block_keys ?sec))"
    using reconciled_keys_mset [OF dbe dco] k 1 by simp
  have 2: "distinct (block_keys blk)"
    using 4 distinct_first_keys [of "block_keys ?sec"] by (metis mset_eq_imp_distinct_iff)
  have 3: "set (block_keys blk) = set (block_keys ?sec)"
    using 4 set_first_keys [of "block_keys ?sec"] by (metis mset_eq_setD)
  have 5: "distinct (block_keys ?sec) \<longrightarrow> mset (block_keys blk) = mset (block_keys ?sec)"
    using 4 by (simp add: first_keys_distinct_id)
  have 6: "\<forall>m \<in> set (bibitem_finditer blk).
            last_body (bibitem_finditer ?sec) (strip (fst m)) = Some (clean_content (snd m))"
  proof
    fix m assume "m \<in> set (bibitem_finditer blk)"
    then have "(fst m, strip (snd m)) \<in> set (map (\<lambda>m. (fst m, strip (snd m))) (bibitem_finditer blk))"
      by (simp only: set_map) (rule imageI)
    then have "(fst m, strip (snd m)) \<in> set (map (\<lambda>k. (k, lookup_body be k)) ?rk)"
      by (simp only: rp)
    then have km: "fst m \<in> set ?rk" and sm: "strip (snd m) = lookup_body be (fst m)"
      by auto
    from parsed_entry_ok [OF mem [OF km]]
    have cc: "clean_content (lookup_body be (fst m)) = lookup_body be (fst m)"
      and sk: "strip (fst m) = fst m" by auto
    have "strip (snd m) = strip (lookup_body be (fst m))"
      using sm cc by (metis strip_clean_content)
    then have "clean_content (snd m) = clean_content (lookup_body be (fst m))"
      by (rule clean_content_strip)
    with cc have c: "clean_content (snd m) = lookup_body be (fst m)" by simp
    have "(fst m, lookup_body be (fst m)) \<in> set be"
      using km sub by (intro lookup_body_mem) blast
    with dbe have "map_of be (fst m) = Some (lookup_body be (fst m))" by simp
    then have "last_body (bibitem_finditer ?sec) (fst m) = Some (lookup_body be (fst m))"
      using map_of_parsed [of "bibitem_finditer ?sec"] be by simp
    with c sk show "last_body (bibitem_finditer ?sec) (strip (fst m)) = Some (clean_content (snd m))"
      by simp
  qed
  from 1 2 3 4 5 6 show ?thesis by (intro conjI)
qed

text \<open>The theorem at the document with the entries \<open>a\<close> and \<open>b\<close>, cited in reverse order.\<close>

theorem output_block_keys_witness:
  "block_keys (fst (projr (reorder_content two_entry_doc))) = [''b'', ''a''] \<and>
   mset (block_keys (fst (projr (reorder_content two_entry_doc)))) = mset [''a'', ''b''] \<and>
   list_all (\<lambda>m. last_body (bibitem_finditer (slice two_entry_doc 8 84)) (strip (fst m)) =
                    Some (clean_content (snd m)))
     (bibitem_finditer (fst (projr (reorder_content two_entry_doc))))"
proof -
  have "\<not> isl (reorder_content two_entry_doc)" by code_simp
  then obtain blk new_content where r: "reorder_content two_entry_doc = Inr (blk, new_content)"
    by (cases "reorder_content two_entry_doc") auto
  have 1: "extract_bibliography_entries two_entry_doc =
             Some ([(''a'', ''A''), (''b'', ''B'')], (8, 84), BEGIN_BIB @ ''{9}'')"
    by code_simp
  have 2: "\<not> sublist BIBITEM (BEGIN_BIB @ ''{9}'')" by code_simp
  have 3: "[] \<notin> set (block_keys (slice two_entry_doc 8 84))" by code_simp
  have 4: "block_keys (slice two_entry_doc 8 84) = [''a'', ''b'']" by code_simp
  have 5: "reconciled_keys (get_ordered_citations (find_all_citations two_entry_doc))
             [(''a'', ''A''), (''b'', ''B'')] = [''b'', ''a'']" by code_simp
  note t = output_block_keys [OF r 1 2 3]
  have a: "block_keys blk = [''b'', ''a'']"
    using t [THEN conjunct1] 5 by (simp only:)
  have "distinct (block_keys (slice two_entry_doc 8 84))" by (simp add: 4)
  with t [THEN conjunct2, THEN conjunct2, THEN conjunct2, THEN conjunct2, THEN conjunct1]
  have "mset (block_keys blk) = mset (block_keys (slice two_entry_doc 8 84))" by (rule mp)
  then have b: "mset (block_keys blk) = mset [''a'', ''b'']" by (simp only: 4)
  have c: "list_all (\<lambda>m. last_body (bibitem_finditer (slice two_entry_doc 8 84)) (strip (fst m)) =
                    Some (clean_content (snd m))) (bibitem_finditer blk)"
    using t [THEN conjunct2, THEN conjunct2, THEN conjunct2, THEN conjunct2, THEN conjunct2]
    by (simp only: list_all_iff)
  from a b c show ?thesis by (simp only: r sum.sel fst_conv simp_thms)
qed

text \<open>
  Claim C1 as stated fails for an input block with the same key on two entries: the
  mapping keeps one entry for the key, with the body of the last one, so the output
  block has the key once where the input block has it twice.
\<close>

theorem duplicate_key_counterexample:
  "map_option (fst \<circ> snd) (extract_bibliography_entries dup_key_doc) = Some (8, 84) \<and>
   block_keys (slice dup_key_doc 8 84) = [''a'', ''a''] \<and>
   \<not> isl (reorder_content dup_key_doc) \<and>
   fst (projr (reorder_content dup_key_doc)) =
     serialize (BEGIN_BIB @ ''{9}'') [full_entry ''a'' ''Y''] \<and>
   block_keys (fst (projr (reorder_content dup_key_doc))) = [''a''] \<and>
   mset (block_keys (fst (projr (reorder_content dup_key_doc)))) \<noteq>
     mset (block_keys (slice dup_key_doc 8 84))"
proof -
  have 1: "map_option (fst \<circ> snd) (extract_bibliography_entries dup_key_doc) = Some (8, 84)"
    by code_simp
  have 2: "block_keys (slice dup_key_doc 8 84) = [''a'', ''a'']" by code_simp
  have 3: "\<not> isl (reorder_content dup_key_doc)" by code_simp
  have 4: "fst (projr (reorder_content dup_key_doc)) =
     serialize (BEGIN_BIB @ ''{9}'') [full_entry ''a'' ''Y'']" by code_simp
  have 5: "block_keys (fst (projr (reorder_content dup_key_doc))) = [''a'']" by code_simp
  have 6: "mset (block_keys (fst (projr (reorder_content dup_key_doc)))) \<noteq>
     mset (block_keys (slice dup_key_doc 8 84))"
    unfolding 2 5 by simp
  from 1 2 3 4 5 6 show ?thesis by (intro conjI)
qed

end
